theory Spec2Isabelle
  imports Complex_Main
begin

section \<open>The bandit task of \<^verbatim>\<open>experiments/task.py\<close>\<close>

text \<open>
  The class \<^verbatim>\<open>Task\<close> is embedded with explicit state passing: every method takes the
  object's fields as a record and returns the updated record. Exceptions are values of
  the datatype \<open>error\<close>. Floats are modelled as reals: the code under study only
  compares them and multiplies them by the marks \<open>0.0\<close> and \<open>1.0\<close>, which is exact.
  Python integers are \<open>int\<close>.

  The generator \<^verbatim>\<open>numpy.random\<close> is not part of the repository. It is a parameter of
  the model: a record of two functions over an explicit generator state \<open>'g\<close>.
\<close>

subsection \<open>Exceptions\<close>

datatype error = KeyError | ValueError | IndexError | TypeError | AssertionError
  | StopIteration

subsection \<open>The configuration (the JSON document held in \<^verbatim>\<open>self.parameters\<close>)\<close>

text \<open>
  A block is a dictionary with the keys \<^verbatim>\<open>n_trial\<close>, \<^verbatim>\<open>cue\<close>, \<^verbatim>\<open>pos\<close>, \<^verbatim>\<open>rwd\<close> and,
  optionally, \<^verbatim>\<open>n_cue\<close> (read with \<^verbatim>\<open>block.get("n_cue", 2)\<close>). The fields for
  \<^verbatim>\<open>cue\<close>, \<^verbatim>\<open>pos\<close> and \<^verbatim>\<open>rwd\<close> are called \<open>block_cue\<close>, \<open>block_pos\<close> and
  \<open>block_rwd\<close>: \<open>cue\<close> is a local variable of \<^verbatim>\<open>process\<close> and \<open>rwd\<close> a field of a trial.
\<close>

record block_cfg =
  n_trial :: int
  block_cue :: "real list"
  block_pos :: "real list"
  block_rwd :: "real list"
  n_cue :: "int option"

record config =
  session :: "string list"
  named :: "string \<rightharpoonup> block_cfg"

subsection \<open>Trials, records and the object\<close>

text \<open>
  One element of \<^verbatim>\<open>self.trials\<close>; the dtype fixes the shapes: \<open>mot\<close>, \<open>cog\<close> and
  \<open>rwd\<close> have 4 items, \<open>ass\<close> has 4 rows of 4 items.
\<close>

record trial =
  mot :: "real list"
  cog :: "real list"
  ass :: "real list list"
  rwd :: "real list"
  rnd :: real

text \<open>
  One element of \<^verbatim>\<open>self.records\<close>. The array stores floats; the truth values written to
  \<^verbatim>\<open>best\<close>, \<^verbatim>\<open>valid\<close> and \<^verbatim>\<open>reward\<close> are kept as \<open>bool\<close> (the stored \<open>0.0\<close> is
  \<open>False\<close>), the integers written to \<^verbatim>\<open>choice\<close> and \<^verbatim>\<open>cue\<close> as \<open>int\<close>. The last three
  fields are \<^verbatim>\<open>value\<close>, \<^verbatim>\<open>CTX:cog -> CTX:ass\<close> and \<^verbatim>\<open>CTX:cog -> STR:cog\<close>.
\<close>

record record_row =
  r_choice :: int
  r_cue :: int
  r_best :: bool
  r_valid :: bool
  r_RT :: real
  r_reward :: bool
  r_value :: "real list"
  r_ctx_ass :: "real list"
  r_ctx_str :: "real list"

text \<open>
  The argument \<^verbatim>\<open>model\<close> of \<^verbatim>\<open>process\<close>: the three arrays that are copied into the
  record, taken to have the shape of the fields they are written to.
\<close>

record model_state =
  m_value :: "real list"
  m_ctx_ass :: "real list"
  m_ctx_str :: "real list"

record task =
  parameters :: config
  blocks :: "(int \<times> int) list"
  trials :: "trial list"
  records :: "record_row list"
  index :: "int option"
  index_start :: "int option"
  index_stop :: "int option"

subsection \<open>The random generator\<close>

text \<open>
  \<open>draw\<close> is one uniform draw from \<open>[0, 1)\<close>. \<open>choice k size p\<close> is
  \<^verbatim>\<open>np.random.choice(range(k), size=size, replace=False, p=p)\<close>: it raises or returns
  indices. The probability vector is \<open>None\<close> when the division that computes it
  divides a non-empty vector by zero (numpy then yields \<^verbatim>\<open>nan\<close> or \<^verbatim>\<open>inf\<close> entries and
  warns, without raising).
\<close>

record 'g np_random =
  draw :: "'g \<Rightarrow> real \<times> 'g"
  choice :: "nat \<Rightarrow> int \<Rightarrow> real list option \<Rightarrow> 'g \<Rightarrow> (error + nat list) \<times> 'g"

text \<open>\<^verbatim>\<open>np.random.uniform(0, 1, n)\<close>: \<open>n\<close> draws, in order.\<close>

fun uniform :: "'g np_random \<Rightarrow> nat \<Rightarrow> 'g \<Rightarrow> real list \<times> 'g" where
  "uniform R 0 g = ([], g)"
| "uniform R (Suc n) g =
     (case draw R g of (x, g1) \<Rightarrow>
        (case uniform R n g1 of (xs, g2) \<Rightarrow> (x # xs, g2)))"

text \<open>
  What numpy documents for a call of \<^verbatim>\<open>choice\<close> without replacement that returns:
  \<open>size\<close> indices below \<open>k\<close>, no index twice.
\<close>

definition choice_contract :: "'g np_random \<Rightarrow> bool" where
  "choice_contract R \<longleftrightarrow>
     (\<forall>k size p g xs g'. choice R k size p g = (Inr xs, g') \<longrightarrow>
        int (length xs) = size \<and> distinct xs \<and> (\<forall>i \<in> set xs. i < k))"


subsection \<open>Python indexing\<close>

text \<open>\<^verbatim>\<open>xs[i]\<close>: a negative index counts from the end, an index out of range raises.\<close>

definition py_index :: "nat \<Rightarrow> int \<Rightarrow> error + nat" where
  "py_index n i =
     (if 0 \<le> i \<and> i < int n then Inr (nat i)
      else if i < 0 \<and> - int n \<le> i then Inr (nat (int n + i))
      else Inl IndexError)"

definition py_get :: "'a list \<Rightarrow> int \<Rightarrow> error + 'a" where
  "py_get xs i = (case py_index (length xs) i of Inl e \<Rightarrow> Inl e | Inr j \<Rightarrow> Inr (xs ! j))"

subsection \<open>\<^verbatim>\<open>Task.setup\<close>\<close>

text \<open>
  Lines 71-81: the blocks of the session. A name that the configuration does not hold
  raises \<^verbatim>\<open>KeyError\<close> at line 73. The configuration is one JSON object, which holds the
  key \<^verbatim>\<open>session\<close> beside the block names: a session that names \<^verbatim>\<open>session\<close> finds the
  list of names, which is no block, and \<^verbatim>\<open>block["n_trial"]\<close> raises \<^verbatim>\<open>TypeError\<close> at
  line 81, once every name was looked up.
\<close>

fun get_blocks :: "(string \<rightharpoonup> block_cfg) \<Rightarrow> string list \<Rightarrow> error + block_cfg list" where
  "get_blocks m [] = Inr []"
| "get_blocks m (name # names) =
     (if name = ''session'' then
        (case get_blocks m names of
           Inl e \<Rightarrow> (if e = KeyError then Inl KeyError else Inl TypeError)
         | Inr bs \<Rightarrow> Inl TypeError)
      else
        (case m name of
           None \<Rightarrow> Inl KeyError
         | Some b \<Rightarrow>
             (case get_blocks m names of
                Inl e \<Rightarrow> Inl e
              | Inr bs \<Rightarrow> Inr (b # bs))))"

text \<open>Lines 76-83: the pairs \<open>(start, stop)\<close> and the total number of trials.\<close>

fun block_ranges :: "int \<Rightarrow> block_cfg list \<Rightarrow> (int \<times> int) list" where
  "block_ranges stop [] = []"
| "block_ranges stop (b # bs) =
     (stop, stop + n_trial b) # block_ranges (stop + n_trial b) bs"

definition total_trials :: "block_cfg list \<Rightarrow> int" where
  "total_trials bs = sum_list (map n_trial bs)"

definition zero_trial :: trial where
  "zero_trial =
     \<lparr>mot = replicate 4 0, cog = replicate 4 0, ass = replicate 4 (replicate 4 0),
      rwd = replicate 4 0, rnd = 0\<rparr>"

definition zero_record :: record_row where
  "zero_record =
     \<lparr>r_choice = 0, r_cue = 0, r_best = False, r_valid = False, r_RT = 0,
      r_reward = False, r_value = replicate 4 0, r_ctx_ass = replicate 4 0,
      r_ctx_str = replicate 4 0\<rparr>"

text \<open>Line 103: \<^verbatim>\<open>self.trials["rnd"] = np.random.uniform(0,1,n)\<close>.\<close>

definition set_rnd :: "trial list \<Rightarrow> real list \<Rightarrow> trial list" where
  "set_rnd ts xs = map (\<lambda>(t, x). t\<lparr>rnd := x\<rparr>) (zip ts xs)"

text \<open>
  Lines 111 and 113: \<^verbatim>\<open>cue / np.sum(cue)\<close>. Dividing the empty vector gives the empty
  vector; dividing a non-empty one by zero gives no probabilities.
\<close>

definition normalise :: "real list \<Rightarrow> real list option" where
  "normalise ws =
     (if ws \<noteq> [] \<and> sum_list ws = 0 then None
      else Some (map (\<lambda>w. w / sum_list ws) ws))"

text \<open>
  Lines 120-121: \<^verbatim>\<open>trial["cog"][cues_idx] = 1\<close>; an index beyond the vector raises.
\<close>

definition mark :: "real list \<Rightarrow> nat list \<Rightarrow> error + real list" where
  "mark v idx =
     (if list_all (\<lambda>i. i < length v) idx then Inr (fold (\<lambda>i w. w[i := 1]) idx v)
      else Inl IndexError)"

text \<open>Lines 122-123: \<^verbatim>\<open>for c, p in zip(cues_idx, pos_idx): trial["ass"][c,p] = 1\<close>.\<close>

fun associate :: "real list list \<Rightarrow> (nat \<times> nat) list \<Rightarrow> error + real list list" where
  "associate a [] = Inr a"
| "associate a ((c, p) # cps) =
     (if c < length a \<and> p < length (a ! c)
      then associate (a[c := (a ! c)[p := 1]]) cps
      else Inl IndexError)"

text \<open>
  Line 124: \<^verbatim>\<open>trial["rwd"][...] = block["rwd"]\<close>. A list of the vector's length is
  copied, a list of one item is broadcast, any other length raises.
\<close>

definition broadcast :: "nat \<Rightarrow> real list \<Rightarrow> error + real list" where
  "broadcast n xs =
     (if length xs = n then Inr xs
      else if length xs = 1 then Inr (replicate n (hd xs))
      else Inl ValueError)"

text \<open>Lines 119-124: the body of the inner loop, once the indices are drawn.\<close>

definition build_trial ::
  "trial \<Rightarrow> nat list \<Rightarrow> nat list \<Rightarrow> real list \<Rightarrow> error + trial" where
  "build_trial t cues_idx pos_idx rw =
     (case mark (cog t) cues_idx of
        Inl e \<Rightarrow> Inl e
      | Inr cg \<Rightarrow>
     (case mark (mot t) pos_idx of
        Inl e \<Rightarrow> Inl e
      | Inr mt \<Rightarrow>
     (case associate (ass t) (zip cues_idx pos_idx) of
        Inl e \<Rightarrow> Inl e
      | Inr a \<Rightarrow>
     (case broadcast (length (rwd t)) rw of
        Inl e \<Rightarrow> Inl e
      | Inr r \<Rightarrow> Inr (t\<lparr>mot := mt, cog := cg, ass := a, rwd := r\<rparr>)))))"

text \<open>
  Lines 115-125: the inner loop, \<open>k\<close> trials still to build, \<open>idx\<close> the running
  \<^verbatim>\<open>index\<close>. Both draws use \<^verbatim>\<open>indices = range(len(block["cue"]))\<close>.
\<close>

fun build_trials ::
  "'g np_random \<Rightarrow> block_cfg \<Rightarrow> nat \<Rightarrow> nat \<Rightarrow> trial list \<Rightarrow> 'g \<Rightarrow>
     error + (nat \<times> trial list \<times> 'g)" where
  "build_trials R b 0 idx ts g = Inr (idx, ts, g)"
| "build_trials R b (Suc k) idx ts g =
     (let n_cues = (case n_cue b of None \<Rightarrow> 2 | Some m \<Rightarrow> m) in
      case choice R (length (block_cue b)) n_cues (normalise (block_cue b)) g of
        (Inl e, g1) \<Rightarrow> Inl e
      | (Inr cues_idx, g1) \<Rightarrow>
     (case choice R (length (block_cue b)) n_cues (normalise (block_pos b)) g1 of
        (Inl e, g2) \<Rightarrow> Inl e
      | (Inr pos_idx, g2) \<Rightarrow>
          if length ts \<le> idx then Inl IndexError
          else
            (case build_trial (ts ! idx) cues_idx pos_idx (block_rwd b) of
               Inl e \<Rightarrow> Inl e
             | Inr t \<Rightarrow> build_trials R b k (Suc idx) (ts[idx := t]) g2)))"

text \<open>
  Lines 106-125: the outer loop. \<^verbatim>\<open>range(block["n_trial"])\<close> is empty for a negative
  count.
\<close>

fun build_blocks ::
  "'g np_random \<Rightarrow> block_cfg list \<Rightarrow> nat \<Rightarrow> trial list \<Rightarrow> 'g \<Rightarrow>
     error + (trial list \<times> 'g)" where
  "build_blocks R [] idx ts g = Inr (ts, g)"
| "build_blocks R (b # bs) idx ts g =
     (case build_trials R b (nat (n_trial b)) idx ts g of
        Inl e \<Rightarrow> Inl e
      | Inr (idx', ts', g') \<Rightarrow> build_blocks R bs idx' ts' g')"

text \<open>
  \<^verbatim>\<open>setup\<close> as a whole (\<open>setup_task\<close> here). \<^verbatim>\<open>np.zeros(n, ...)\<close> raises
  \<^verbatim>\<open>ValueError\<close> for a negative \<open>n\<close>. When \<^verbatim>\<open>setup\<close> raises, the exception leaves the constructor or the \<^verbatim>\<open>for\<close> statement
  that called it; the model returns the error only and does not follow the fields
  assigned before the raise. The cursor fields are not touched by \<^verbatim>\<open>setup\<close>.
\<close>

definition setup_task :: "'g np_random \<Rightarrow> task \<Rightarrow> 'g \<Rightarrow> error + (task \<times> 'g)" where
  "setup_task R T g =
     (case get_blocks (named (parameters T)) (session (parameters T)) of
        Inl e \<Rightarrow> Inl e
      | Inr bs \<Rightarrow>
          let n = total_trials bs in
          if n < 0 then Inl ValueError
          else
            (case uniform R (nat n) g of (xs, g1) \<Rightarrow>
               (case build_blocks R bs 0 (set_rnd (replicate (nat n) zero_trial) xs) g1 of
                  Inl e \<Rightarrow> Inl e
                | Inr (ts, g2) \<Rightarrow>
                    Inr (T\<lparr>blocks := block_ranges 0 bs, trials := ts,
                           records := replicate (nat n) zero_record\<rparr>, g2))))"

text \<open>
  \<^verbatim>\<open>Task.__init__\<close>: the cursor is \<^verbatim>\<open>None\<close>, the parameters are those read from the
  file, then \<^verbatim>\<open>setup\<close> runs.
\<close>

definition init :: "'g np_random \<Rightarrow> config \<Rightarrow> 'g \<Rightarrow> error + (task \<times> 'g)" where
  "init R cfg g =
     setup_task R \<lparr>parameters = cfg, blocks = [], trials = [], records = [],
              index = None, index_start = None, index_stop = None\<rparr> g"

subsection \<open>Length, random access, block scoping\<close>

definition len :: "task \<Rightarrow> nat" where
  "len T = length (trials T)"


definition block :: "task \<Rightarrow> int \<Rightarrow> error + task" where
  "block T i =
     (case py_get (blocks T) i of
        Inl e \<Rightarrow> Inl e
      | Inr (start, stop) \<Rightarrow>
          Inr (T\<lparr>index_start := Some (start - 1), index_stop := Some stop,
                 index := Some (start - 1)\<rparr>))"

subsection \<open>The iteration protocol\<close>

definition iter :: "'g np_random \<Rightarrow> task \<Rightarrow> 'g \<Rightarrow> error + (task \<times> 'g)" where
  "iter R T g =
     (if index_start T = None then
        (case setup_task R T g of
           Inl e \<Rightarrow> Inl e
         | Inr (T1, g1) \<Rightarrow>
             Inr (T1\<lparr>index_start := Some (- 1), index_stop := Some (int (len T1)),
                     index := Some (- 1)\<rparr>, g1))
      else Inr (T, g))"

text \<open>
  \<^verbatim>\<open>__next__\<close>. Adding one to a cursor that is \<^verbatim>\<open>None\<close>, or comparing with a stop that is
  \<^verbatim>\<open>None\<close>, raises \<^verbatim>\<open>TypeError\<close>. The end of the sequence resets the three cursor fields
  and raises \<^verbatim>\<open>StopIteration\<close>.
\<close>

definition next_trial :: "task \<Rightarrow> (error + trial) \<times> task" where
  "next_trial T =
     (case index T of
        None \<Rightarrow> (Inl TypeError, T)
      | Some i \<Rightarrow>
          let T1 = T\<lparr>index := Some (i + 1)\<rparr> in
          (case index_stop T1 of
             None \<Rightarrow> (Inl TypeError, T1)
           | Some s \<Rightarrow>
               if i + 1 < s then
                 (case py_get (trials T1) (i + 1) of
                    Inl e \<Rightarrow> (Inl e, T1)
                  | Inr t \<Rightarrow> (Inr t, T1))
               else
                 (Inl StopIteration,
                  T1\<lparr>index := None, index_start := None, index_stop := None\<rparr>)))"

text \<open>The distance of the cursor from its stop: it decreases with every trial returned.\<close>

definition remaining :: "task \<Rightarrow> nat" where
  "remaining T =
     (case index T of
        None \<Rightarrow> 0
      | Some i \<Rightarrow> (case index_stop T of None \<Rightarrow> 0 | Some s \<Rightarrow> nat (s - i)))"

text \<open>
  The calls of \<^verbatim>\<open>__next__\<close> made by a \<^verbatim>\<open>for\<close> statement, up to \<^verbatim>\<open>StopIteration\<close>, which
  ends the statement normally; the trials returned are collected.
\<close>

function drain :: "task \<Rightarrow> (error + trial list) \<times> task" where
  "drain T =
     (case next_trial T of
        (Inl e, T1) \<Rightarrow> (if e = StopIteration then (Inr [], T1) else (Inl e, T1))
      | (Inr t, T1) \<Rightarrow>
          (case drain T1 of
             (Inl e, T2) \<Rightarrow> (Inl e, T2)
           | (Inr ts, T2) \<Rightarrow> (Inr (t # ts), T2)))"
  by pat_completeness auto
termination
proof (relation "measure remaining")
  show "wf (measure remaining)" by simp
next
  fix T :: task and r T1 t
  assume "(r, T1) = next_trial T" and "r = Inr t"
  then have "next_trial T = (Inr t, T1)" by simp
  then have "remaining T1 < remaining T"
    by (auto simp: next_trial_def remaining_def Let_def
        split: option.splits if_splits sum.splits)
  then show "(T1, T) \<in> measure remaining" by simp
qed

declare drain.simps [simp del]

text \<open>\<^verbatim>\<open>for trial in task\<close> with a body that only collects: \<^verbatim>\<open>__iter__\<close>, then the loop.\<close>

definition iterate ::
  "'g np_random \<Rightarrow> task \<Rightarrow> 'g \<Rightarrow> error + (trial list \<times> task \<times> 'g)" where
  "iterate R T g =
     (case iter R T g of
        Inl e \<Rightarrow> Inl e
      | Inr (T1, g1) \<Rightarrow>
          (case drain T1 of
             (Inl e, T2) \<Rightarrow> Inl e
           | (Inr ts, T2) \<Rightarrow> Inr (ts, T2, g1)))"

subsection \<open>\<^verbatim>\<open>Task.process\<close>\<close>

text \<open>\<^verbatim>\<open>np.nonzero(v)[0]\<close>: the indices of the nonzero items, ascending.\<close>

definition nonzero :: "real list \<Rightarrow> nat list" where
  "nonzero v = filter (\<lambda>i. v ! i \<noteq> 0) [0 ..< length v]"

text \<open>\<^verbatim>\<open>a[:, j]\<close>, for a column \<open>j\<close> within the matrix.\<close>

definition column :: "real list list \<Rightarrow> nat \<Rightarrow> real list" where
  "column a j = map (\<lambda>row. row ! j) a"

text \<open>Python's \<^verbatim>\<open>max\<close> of a non-empty sequence.\<close>

fun py_max :: "real \<Rightarrow> real list \<Rightarrow> real" where
  "py_max m [] = m"
| "py_max m (x # xs) = py_max (if m < x then x else m) xs"

text \<open>
  Lines 158-179: cue, valid, best and reward of a choice. The trial has the shapes of
  its dtype, so a choice within \<open>mot\<close> is within \<open>ass\<close> too.
\<close>

definition evaluate :: "trial \<Rightarrow> int \<Rightarrow> error + (int \<times> bool \<times> bool \<times> bool)" where
  "evaluate t c =
     (if c < 0 then Inr (- 1, False, False, False)
      else
        (case py_get (mot t) c of
           Inl e \<Rightarrow> Inl e
         | Inr m \<Rightarrow>
             let valid = (m = 1);
                 cues = nonzero (column (ass t) (nat c))
             in if length cues \<noteq> 1 then Inl AssertionError
                else
                  let cue = hd cues;
                      present_rwd = map (\<lambda>(x, y). x * y) (zip (cog t) (rwd t))
                  in (case present_rwd of
                        [] \<Rightarrow> Inl ValueError
                      | x # xs \<Rightarrow>
                          let best = (py_max x xs = present_rwd ! cue);
                              reward = (rnd t < rwd t ! cue)
                          in Inr (int cue, valid, best, reward))))"

text \<open>
  \<^verbatim>\<open>self.records[self.index][field] = value\<close>. With an integer cursor this addresses
  one slot, or raises. With the cursor \<^verbatim>\<open>None\<close>, numpy reads the index as a new axis:
  the assignment is broadcast to every slot.
\<close>

definition write_record ::
  "record_row list \<Rightarrow> int option \<Rightarrow> (record_row \<Rightarrow> record_row) \<Rightarrow> error + record_row list"
  where
  "write_record rs cursor f =
     (case cursor of
        None \<Rightarrow> Inr (map f rs)
      | Some i \<Rightarrow>
          (case py_index (length rs) i of
             Inl e \<Rightarrow> Inl e
           | Inr j \<Rightarrow> Inr (rs[j := f (rs ! j)])))"

text \<open>Lines 182-191: the fields written to the slot.\<close>

definition fill ::
  "int \<Rightarrow> int \<Rightarrow> bool \<Rightarrow> bool \<Rightarrow> real \<Rightarrow> bool \<Rightarrow> model_state option \<Rightarrow>
     record_row \<Rightarrow> record_row" where
  "fill c cue best valid RT reward model r =
     (let r1 = r\<lparr>r_choice := c, r_cue := cue, r_best := best, r_valid := valid,
                 r_RT := RT, r_reward := reward\<rparr>
      in case model of
           None \<Rightarrow> r1
         | Some m \<Rightarrow> r1\<lparr>r_value := m_value m, r_ctx_ass := m_ctx_ass m,
                       r_ctx_str := m_ctx_str m\<rparr>)"

text \<open>
  \<^verbatim>\<open>process(trial, choice, RT, model, debug)\<close> returns \<^verbatim>\<open>(reward, cue, best)\<close>. The
  printing of the debug mode is not modelled, except that \<^verbatim>\<open>self.index+1\<close> raises
  \<^verbatim>\<open>TypeError\<close> when the cursor is \<^verbatim>\<open>None\<close>, after the record was written.
\<close>

definition process ::
  "task \<Rightarrow> trial \<Rightarrow> int \<Rightarrow> real \<Rightarrow> model_state option \<Rightarrow> bool \<Rightarrow>
     (error + (bool \<times> int \<times> bool)) \<times> task" where
  "process T t c RT model debug =
     (case evaluate t c of
        Inl e \<Rightarrow> (Inl e, T)
      | Inr (cue, valid, best, reward) \<Rightarrow>
          (case write_record (records T) (index T) (fill c cue best valid RT reward model) of
             Inl e \<Rightarrow> (Inl e, T)
           | Inr rs \<Rightarrow>
               let T1 = T\<lparr>records := rs\<rparr> in
               if debug \<and> index T = None then (Inl TypeError, T1)
               else (Inr (reward, cue, best), T1)))"

subsection \<open>Shapes, marks and the trial of a block\<close>

text \<open>The shapes that the dtype of \<^verbatim>\<open>self.trials\<close> gives to every trial.\<close>

definition shaped :: "trial \<Rightarrow> bool" where
  "shaped t \<longleftrightarrow>
     length (mot t) = 4 \<and> length (cog t) = 4 \<and> length (rwd t) = 4 \<and>
     length (ass t) = 4 \<and> list_all (\<lambda>row. length row = 4) (ass t)"

text \<open>A vector of marks holds only \<open>0\<close> and \<open>1\<close>; its marked slots, ascending.\<close>

definition binary :: "real list \<Rightarrow> bool" where
  "binary v \<longleftrightarrow> list_all (\<lambda>x. x = 0 \<or> x = 1) v"

definition marked :: "real list \<Rightarrow> nat list" where
  "marked v = filter (\<lambda>i. v ! i = 1) [0 ..< length v]"

text \<open>
  The rows (cue slots) and the columns (positions) of the association matrix that
  contain a one, ascending, and the number of ones in the matrix.
\<close>

definition cue_rows :: "real list list \<Rightarrow> nat list" where
  "cue_rows a = filter (\<lambda>i. 1 \<in> set (a ! i)) [0 ..< length a]"

definition pos_columns :: "real list list \<Rightarrow> nat list" where
  "pos_columns a = filter (\<lambda>j. 1 \<in> set (column a j)) [0 ..< 4]"

definition count_ones :: "real list list \<Rightarrow> nat" where
  "count_ones a = length (filter (\<lambda>x. x = 1) (concat a))"

text \<open>
  What is expected of a trial built with \<open>m\<close> cues: \<open>m\<close> ones in \<open>ass\<close> and zeros
  elsewhere, the rows with a one are the slots marked in \<open>cog\<close>, the columns with a one
  are the positions marked in \<open>mot\<close>, and \<open>m\<close> slots are marked in each of \<open>cog\<close> and
  \<open>mot\<close> (no sampled index was used twice).
\<close>

definition generated :: "int \<Rightarrow> trial \<Rightarrow> bool" where
  "generated m t \<longleftrightarrow>
     shaped t \<and> binary (cog t) \<and> binary (mot t) \<and> list_all binary (ass t) \<and>
     int (count_ones (ass t)) = m \<and>
     cue_rows (ass t) = marked (cog t) \<and>
     pos_columns (ass t) = marked (mot t) \<and>
     int (length (marked (cog t))) = m \<and>
     int (length (marked (mot t))) = m"

text \<open>\<^verbatim>\<open>block.get("n_cue", 2)\<close>, and the block that owns each trial, in trial order.\<close>

definition n_cues_of :: "block_cfg \<Rightarrow> int" where
  "n_cues_of b = (case n_cue b of None \<Rightarrow> 2 | Some m \<Rightarrow> m)"

definition owners :: "block_cfg list \<Rightarrow> block_cfg list" where
  "owners bs = concat (map (\<lambda>b. replicate (nat (n_trial b)) b) bs)"

text \<open>A trial as \<^verbatim>\<open>np.zeros\<close> leaves it, whatever its \<open>rnd\<close> and \<open>rwd\<close>: no mark is set.\<close>

definition blank :: "trial \<Rightarrow> bool" where
  "blank t \<longleftrightarrow>
     shaped t \<and> list_all (\<lambda>x. x = 0) (cog t) \<and> list_all (\<lambda>x. x = 0) (mot t) \<and>
     list_all (list_all (\<lambda>x. x = 0)) (ass t)"

text \<open>
  A block whose shapes fit the arrays: a trial count that is not negative, at most 4
  slots to draw from, and reward probabilities that fill 4 slots (or one value, which
  numpy broadcasts).
\<close>

definition well_formed :: "block_cfg \<Rightarrow> bool" where
  "well_formed b \<longleftrightarrow>
     0 \<le> n_trial b \<and> length (block_cue b) \<le> 4 \<and>
     (length (block_rwd b) = 4 \<or> length (block_rwd b) = 1)"

text \<open>The sampler accepts the two calls that \<^verbatim>\<open>setup\<close> makes for a trial of the block.\<close>

definition samples :: "'g np_random \<Rightarrow> block_cfg \<Rightarrow> bool" where
  "samples R b \<longleftrightarrow>
     (\<forall>g. \<exists>xs g'. choice R (length (block_cue b)) (n_cues_of b) (normalise (block_cue b)) g =
        (Inr xs, g')) \<and>
     (\<forall>g. \<exists>xs g'. choice R (length (block_cue b)) (n_cues_of b) (normalise (block_pos b)) g =
        (Inr xs, g'))"


text \<open>The cursor as \<^verbatim>\<open>__init__\<close> and the end of a sequence leave it: not started.\<close>

definition not_started :: "task \<Rightarrow> task" where
  "not_started T = T\<lparr>index := None, index_start := None, index_stop := None\<rparr>"

subsection \<open>Concrete inputs\<close>

text \<open>
  The trial of the specification's example: cues 0 and 2 are present, at positions 1
  and 2.
\<close>

definition example_trial :: trial where
  "example_trial =
     \<lparr>mot = [0, 1, 1, 0], cog = [1, 0, 1, 0],
      ass = [[0, 1, 0, 0], [0, 0, 0, 0], [0, 0, 1, 0], [0, 0, 0, 0]],
      rwd = [8 / 10, 5 / 10, 2 / 10, 5 / 10], rnd = 3 / 10\<rparr>"

text \<open>
  A session of two blocks of one trial each: block \<open>A\<close> draws among all slots with the
  default number of cues, block \<open>B\<close> draws two cues among the slots 1 and 3 and two
  positions among 0 and 3.
\<close>

definition block_A :: block_cfg where
  "block_A =
     \<lparr>n_trial = 1, block_cue = [1, 1, 1, 1], block_pos = [1, 1, 1, 1],
      block_rwd = [8 / 10, 5 / 10, 2 / 10, 5 / 10], n_cue = None\<rparr>"

definition block_B :: block_cfg where
  "block_B =
     \<lparr>n_trial = 1, block_cue = [0, 1, 0, 1], block_pos = [1, 0, 0, 1],
      block_rwd = [8 / 10, 5 / 10, 2 / 10, 5 / 10], n_cue = Some 2\<rparr>"

definition example_config :: config where
  "example_config =
     \<lparr>session = [''A'', ''B''], named = [''A'' \<mapsto> block_A, ''B'' \<mapsto> block_B]\<rparr>"

text \<open>A task in the middle of an iteration: two trials, the cursor on the first.\<close>

definition example_task :: task where
  "example_task =
     \<lparr>parameters = example_config, blocks = [(0, 2)],
      trials = [example_trial, example_trial\<lparr>rnd := 7 / 10\<rparr>],
      records = [zero_record, zero_record],
      index = Some 0, index_start = Some (- 1), index_stop = Some 2\<rparr>"

text \<open>
  A generator whose state counts the calls: the uniform draws are \<open>1/2\<close>, \<open>1/3\<close>,
  \<open>1/4\<close> and so on, and \<open>choice\<close> returns the first \<open>size\<close> indices that have a
  positive probability, or raises \<^verbatim>\<open>ValueError\<close> as numpy does when the probabilities
  are not a distribution over \<open>range(k)\<close> or fewer than \<open>size\<close> of them are positive.
\<close>

definition example_rng :: "nat np_random" where
  "example_rng =
     \<lparr>draw = (\<lambda>g. (1 / (real g + 2), Suc g)),
      choice = (\<lambda>k size p g.
        (case p of
           None \<Rightarrow> Inl ValueError
         | Some ps \<Rightarrow>
             let support = filter (\<lambda>i. 0 < ps ! i) [0 ..< length ps] in
             if length ps = k \<and> 0 < k \<and> list_all (\<lambda>x. 0 \<le> x) ps \<and> sum_list ps = 1 \<and>
                0 \<le> size \<and> nat size \<le> length support
             then Inr (take (nat size) support)
             else Inl ValueError, Suc g))\<rparr>"

text \<open>A trial in which cue 1, with reward probability \<open>0.5\<close>, is at position 0.\<close>

definition half_trial :: trial where
  "half_trial =
     \<lparr>mot = [1, 0, 0, 1], cog = [0, 1, 0, 1],
      ass = [[0, 0, 0, 0], [1, 0, 0, 0], [0, 0, 0, 0], [0, 0, 0, 1]],
      rwd = [8 / 10, 5 / 10, 2 / 10, 5 / 10], rnd = 3 / 10\<rparr>"

text \<open>
  The trial that block \<open>A\<close> yields under the example generator, and the task that
  \<^verbatim>\<open>setup\<close> builds from the example configuration when the two uniform draws are \<open>x\<close>
  and \<open>y\<close>.
\<close>

definition trial_A :: "real \<Rightarrow> trial" where
  "trial_A x =
     \<lparr>mot = [1, 1, 0, 0], cog = [1, 1, 0, 0],
      ass = [[1, 0, 0, 0], [0, 1, 0, 0], [0, 0, 0, 0], [0, 0, 0, 0]],
      rwd = [8 / 10, 5 / 10, 2 / 10, 5 / 10], rnd = x\<rparr>"

definition session_task :: "real \<Rightarrow> real \<Rightarrow> task" where
  "session_task x y =
     \<lparr>parameters = example_config, blocks = [(0, 1), (1, 2)],
      trials = [trial_A x, half_trial\<lparr>rnd := y\<rparr>],
      records = [zero_record, zero_record],
      index = None, index_start = None, index_stop = None\<rparr>"






section \<open>Properties of \<^verbatim>\<open>process\<close>\<close>

subsection \<open>Auxiliary facts\<close>

lemma upt4: "[0 ..< 4] = [0, 1, 2, 3]"
  by (simp add: upt_rec)

lemma py_index_less: "py_index n i = Inr j \<Longrightarrow> j < n"
  by (auto simp: py_index_def split: if_splits)

lemma evaluate_negative: "c < 0 \<Longrightarrow> evaluate t c = Inr (- 1, False, False, False)"
  by (simp add: evaluate_def)

lemma evaluate_cue:
  assumes "0 \<le> c" "evaluate t c = Inr (cue, valid, best, reward)"
  shows "0 \<le> cue \<and> nonzero (column (ass t) (nat c)) = [nat cue] \<and>
    (valid \<longleftrightarrow> mot t ! nat c = 1) \<and> (reward \<longleftrightarrow> rnd t < rwd t ! nat cue)"
proof -
  from assms obtain m where m: "py_get (mot t) c = Inr m"
    by (auto simp: evaluate_def split: sum.splits)
  from assms m have one: "length (nonzero (column (ass t) (nat c))) = 1"
    by (auto simp: evaluate_def Let_def split: if_splits)
  then obtain k where k: "nonzero (column (ass t) (nat c)) = [k]"
    by (cases "nonzero (column (ass t) (nat c))") auto
  from assms m k show ?thesis
    by (auto simp: evaluate_def Let_def py_get_def py_index_def
        split: if_splits list.splits sum.splits)
qed

lemma process_returns:
  assumes "process T t c RT model debug = (Inr (reward, cue, best), T')"
  shows "\<exists>valid. evaluate t c = Inr (cue, valid, best, reward)"
  using assms
  by (auto simp: process_def Let_def split: sum.splits if_splits)

text \<open>
  A choice whose column of \<open>ass\<close> holds one nonzero item is evaluated without an
  exception.
\<close>

lemma evaluate_returns:
  assumes "shaped t" "0 \<le> c" "c < 4" "nonzero (column (ass t) (nat c)) = [k]"
  shows "\<exists>best. evaluate t c = Inr (int k, mot t ! nat c = 1, best, rnd t < rwd t ! k)"
proof -
  from assms have "py_get (mot t) c = Inr (mot t ! nat c)"
    by (simp add: py_get_def py_index_def shaped_def)
  moreover from assms obtain x xs where
    "map (\<lambda>(x, y). x * y) (zip (cog t) (rwd t)) = x # xs"
    by (cases "cog t"; cases "rwd t") (auto simp: shaped_def)
  ultimately show ?thesis
    using assms by (simp add: evaluate_def Let_def)
qed


lemma nonzero_empty:
  assumes "\<forall>x \<in> set v. x = 0"
  shows "nonzero v = []"
  using assms by (auto simp: nonzero_def filter_empty_conv)

lemma unmarked_column_zero:
  assumes "generated m t" "j < 4" "mot t ! j \<noteq> 1"
  shows "\<forall>x \<in> set (column (ass t) j). x = 0"
proof -
  from assms have "j \<notin> set (marked (mot t))"
    by (simp add: marked_def)
  with assms have "j \<notin> set (pos_columns (ass t))"
    by (simp add: generated_def)
  with assms(2) have no: "1 \<notin> set (column (ass t) j)"
    by (simp add: pos_columns_def)
  show ?thesis
  proof
    fix x assume x: "x \<in> set (column (ass t) j)"
    then obtain row where row: "row \<in> set (ass t)" "x = row ! j"
      by (auto simp: column_def)
    with assms have "binary row" "length row = 4"
      by (auto simp: generated_def shaped_def list_all_iff)
    with row assms(2) have "x = 0 \<or> x = 1"
      by (auto simp: binary_def list_all_iff)
    with no x show "x = 0" by auto
  qed
qed

lemma generated_example_trial: "generated 2 example_trial"
  by (simp add: generated_def shaped_def binary_def count_ones_def cue_rows_def
      pos_columns_def marked_def column_def example_trial_def upt4)

lemma process_half_trial:
  "process example_task (half_trial\<lparr>rnd := x\<rparr>) 0 0 None False =
     (Inr (x < 5 / 10, 1, True),
      example_task\<lparr>records :=
        [fill 0 1 True True 0 (x < 5 / 10) None zero_record, zero_record]\<rparr>)"
  by (simp add: process_def evaluate_def half_trial_def py_get_def py_index_def nonzero_def
      column_def upt4 write_record_def example_task_def)

subsection \<open>No choice\<close>

text \<open>
  C4. For every trial and every choice below zero, the evaluation gives cue \<open>-1\<close>,
  valid false, best false and reward \<open>0\<close>, whatever the trial holds; \<^verbatim>\<open>process\<close> returns
  \<open>(0, -1, False)\<close> whenever it returns, and with the cursor on a record slot it does
  return and writes these values to that slot. The random value of the trial is not
  compared.
\<close>

theorem process_no_choice:
  assumes "c < 0"
  shows "evaluate t c = Inr (- 1, False, False, False) \<and>
    (\<forall>res T'. process T t c RT model debug = (Inr res, T') \<longrightarrow> res = (False, - 1, False)) \<and>
    (\<forall>i j. index T = Some i \<and> py_index (length (records T)) i = Inr j \<longrightarrow>
       (\<exists>T'. process T t c RT model debug = (Inr (False, - 1, False), T') \<and>
          r_choice (records T' ! j) = c \<and> r_cue (records T' ! j) = - 1 \<and>
          \<not> r_valid (records T' ! j) \<and> \<not> r_best (records T' ! j) \<and>
          \<not> r_reward (records T' ! j)))"
proof (intro conjI allI impI)
  show ev: "evaluate t c = Inr (- 1, False, False, False)"
    using assms by (rule evaluate_negative)
  show "res = (False, - 1, False)" if "process T t c RT model debug = (Inr res, T')" for res T'
    using that ev by (auto simp: process_def Let_def split: sum.splits if_splits)
  show "\<exists>T'. process T t c RT model debug = (Inr (False, - 1, False), T') \<and>
          r_choice (records T' ! j) = c \<and> r_cue (records T' ! j) = - 1 \<and>
          \<not> r_valid (records T' ! j) \<and> \<not> r_best (records T' ! j) \<and>
          \<not> r_reward (records T' ! j)"
    if h: "index T = Some i \<and> py_index (length (records T)) i = Inr j" for i j
  proof -
    from h have "j < length (records T)"
      using py_index_less by blast
    with h ev show ?thesis
      by (auto simp: process_def write_record_def fill_def Let_def split: option.splits)
  qed
qed

theorem process_no_choice_witness:
  "evaluate example_trial (- 1) = Inr (- 1, False, False, False) \<and>
   process example_task example_trial (- 1) 0 None False =
     (Inr (False, - 1, False),
      example_task\<lparr>records := [zero_record\<lparr>r_choice := - 1, r_cue := - 1\<rparr>, zero_record]\<rparr>)"
  using process_no_choice [of "- 1" example_trial example_task 0 None False]
  by (simp add: process_def write_record_def fill_def py_index_def example_task_def
      zero_record_def)

subsection \<open>The reward\<close>

text \<open>
  C5. For every trial and every non-negative choice for which \<^verbatim>\<open>process\<close> returns, the
  returned cue is the one cue slot associated with the chosen position, and the
  returned reward is true if and only if the trial's pre-drawn \<open>rnd\<close> is strictly less
  than \<open>rwd[cue]\<close>.
\<close>

theorem reward_threshold:
  assumes "0 \<le> c" and "process T t c RT model debug = (Inr (reward, cue, best), T')"
  shows "0 \<le> cue \<and> nonzero (column (ass t) (nat c)) = [nat cue] \<and>
    (reward \<longleftrightarrow> rnd t < rwd t ! nat cue)"
proof -
  from assms(2) obtain valid where "evaluate t c = Inr (cue, valid, best, reward)"
    using process_returns by blast
  with assms(1) show ?thesis
    using evaluate_cue by blast
qed

text \<open>With \<open>rwd[cue] = 0.5\<close>: \<open>rnd = 0.3\<close> is rewarded, \<open>rnd = 0.7\<close> is not.\<close>

theorem reward_threshold_witness:
  "fst (process example_task (half_trial\<lparr>rnd := 3 / 10\<rparr>) 0 0 None False) =
     Inr (True, 1, True) \<and>
   fst (process example_task (half_trial\<lparr>rnd := 7 / 10\<rparr>) 0 0 None False) =
     Inr (False, 1, True) \<and>
   rnd (half_trial\<lparr>rnd := 3 / 10\<rparr>) < rwd (half_trial\<lparr>rnd := 3 / 10\<rparr>) ! nat 1 \<and>
   \<not> rnd (half_trial\<lparr>rnd := 7 / 10\<rparr>) < rwd (half_trial\<lparr>rnd := 7 / 10\<rparr>) ! nat 1"
  using reward_threshold [OF _ process_half_trial [of "3 / 10"]]
    reward_threshold [OF _ process_half_trial [of "7 / 10"]]
  by (simp add: process_half_trial)

subsection \<open>A position that is not in play\<close>

text \<open>
  C2, as the code has it. For every trial that satisfies what is expected of a generated
  trial, and every choice from 0 to 3 whose position is not marked in \<open>mot\<close>, the
  column of \<open>ass\<close> at the choice holds no association, the assertion
  \<^verbatim>\<open>len(cues) == 1\<close> fails, and \<^verbatim>\<open>process\<close> raises \<^verbatim>\<open>AssertionError\<close>: it returns
  nothing and writes no record.
\<close>

theorem unmarked_choice_raises:
  assumes "generated m t" and "0 \<le> c" and "c < 4" and "mot t ! nat c \<noteq> 1"
  shows "process T t c RT model debug = (Inl AssertionError, T)"
proof -
  from assms have "nat c < 4" by simp
  with assms have "nonzero (column (ass t) (nat c)) = []"
    using unmarked_column_zero nonzero_empty by blast
  moreover from assms have "py_get (mot t) c = Inr (mot t ! nat c)"
    by (simp add: py_get_def py_index_def generated_def shaped_def)
  ultimately show ?thesis
    using assms by (simp add: process_def evaluate_def)
qed

theorem unmarked_choice_raises_witness:
  "mot example_trial ! nat 0 \<noteq> 1 \<and>
   process example_task example_trial 0 0 None False = (Inl AssertionError, example_task)"
proof -
  have m: "mot example_trial ! nat 0 \<noteq> 1"
    by (simp add: example_trial_def)
  from unmarked_choice_raises [OF generated_example_trial _ _ m, of example_task 0 None False]
  show ?thesis
    using m by simp
qed

text \<open>
  The claim as stated fails on the example trial: position 0 is not marked in \<open>mot\<close>,
  and the call does not return the defaults, it raises.
\<close>

theorem unmarked_choice_counterexample:
  "mot example_trial ! 0 \<noteq> 1 \<and>
   fst (process example_task example_trial 0 0 None False) = Inl AssertionError \<and>
   fst (process example_task example_trial 0 0 None False) \<noteq> Inr (False, - 1, False)"
  by (simp add: process_def evaluate_def example_trial_def py_get_def py_index_def
      nonzero_def column_def upt4)

subsection \<open>The best choice\<close>

lemma py_max_Max: "py_max m xs = Max (set (m # xs))"
proof (induction xs arbitrary: m)
  case Nil
  then show ?case by simp
next
  case (Cons x xs)
  have "py_max m (x # xs) = Max (set (max m x # xs))"
    using Cons.IH [of "if m < x then x else m"] by (simp add: max_def not_less)
  also have "\<dots> = Max (set (m # x # xs))"
    by (cases xs) (simp_all add: max.assoc)
  finally show ?case .
qed

lemma Max_present:
  assumes len: "length cg = length rw" and bin: "binary cg"
    and pos: "\<forall>x \<in> set rw. 0 \<le> x" and k: "k < length cg" "cg ! k = 1"
  shows "Max (set (map (\<lambda>(x, y). x * y) (zip cg rw))) =
    Max (set (map (\<lambda>i. rw ! i) (marked cg)))"
proof -
  let ?A = "set (map (\<lambda>(x, y). x * y) (zip cg rw))"
  let ?B = "set (map (\<lambda>i. rw ! i) (marked cg))"
  have kB: "rw ! k \<in> ?B"
    using k by (auto simp: marked_def)
  have BA: "?B \<subseteq> ?A"
  proof
    fix b assume "b \<in> ?B"
    then obtain i where i: "i < length cg" "cg ! i = 1" "b = rw ! i"
      by (auto simp: marked_def)
    then have "map (\<lambda>(x, y). x * y) (zip cg rw) ! i = b"
      using len by simp
    moreover have "i < length (map (\<lambda>(x, y). x * y) (zip cg rw))"
      using i len by simp
    ultimately show "b \<in> ?A"
      using nth_mem by blast
  qed
  have AB: "\<And>a. a \<in> ?A \<Longrightarrow> a \<in> ?B \<or> a = 0"
  proof -
    fix a assume "a \<in> ?A"
    then obtain i where i: "i < length cg" "a = cg ! i * rw ! i"
      using len by (auto simp: in_set_conv_nth)
    then have "cg ! i = 0 \<or> cg ! i = 1"
      using bin by (auto simp: binary_def list_all_iff)
    with i show "a \<in> ?B \<or> a = 0"
      by (auto simp: marked_def)
  qed
  have finA: "finite ?A" and finB: "finite ?B" by simp_all
  have neB: "?B \<noteq> {}" using kB by (metis empty_iff)
  have neA: "?A \<noteq> {}" using BA kB by (metis empty_iff subsetD)
  have B0: "0 \<le> Max ?B"
  proof -
    have "0 \<le> rw ! k" using pos k len by simp
    also have "rw ! k \<le> Max ?B" using kB finB by (rule_tac Max_ge)
    finally show ?thesis .
  qed
  have "Max ?B \<le> Max ?A"
    using BA neB finA by (rule Max_mono)
  moreover have "Max ?A \<le> Max ?B"
  proof -
    have "Max ?A \<in> ?A" using finA neA by (rule Max_in)
    then have "Max ?A \<in> ?B \<or> Max ?A = 0" by (rule AB)
    then show ?thesis
    proof
      assume "Max ?A \<in> ?B" then show ?thesis using finB by (rule_tac Max_ge)
    next
      assume "Max ?A = 0" then show ?thesis using B0 by simp
    qed
  qed
  ultimately show ?thesis by simp
qed

lemma nonzero_single:
  assumes "nonzero v = [k]"
  shows "k < length v \<and> v ! k \<noteq> 0"
proof -
  have "k \<in> set (nonzero v)" using assms by simp
  then show ?thesis by (auto simp: nonzero_def)
qed

lemma generated_cue_marked:
  assumes "generated m t" and "nonzero (column (ass t) j) = [k]" and "j < 4"
  shows "k < 4 \<and> cog t ! k = 1"
proof -
  from assms(2) have k: "k < length (column (ass t) j)" "column (ass t) j ! k \<noteq> 0"
    using nonzero_single by blast+
  from assms(1) have sh: "length (ass t) = 4" "length (cog t) = 4"
    by (simp_all add: generated_def shaped_def)
  from k sh have k4: "k < 4" by (simp add: column_def)
  with k sh have nz: "ass t ! k ! j \<noteq> 0" by (simp add: column_def)
  from k4 sh have row: "ass t ! k \<in> set (ass t)" by simp
  with assms(1) have "binary (ass t ! k)" "length (ass t ! k) = 4"
    by (auto simp: generated_def shaped_def list_all_iff)
  with nz assms(3) have "ass t ! k ! j = 1" "ass t ! k ! j \<in> set (ass t ! k)"
    by (auto simp: binary_def list_all_iff)
  then have "1 \<in> set (ass t ! k)" by simp
  with k4 sh have "k \<in> set (cue_rows (ass t))"
    by (simp add: cue_rows_def)
  with assms(1) have "k \<in> set (marked (cog t))"
    by (simp add: generated_def)
  with k4 show ?thesis by (simp add: marked_def)
qed

text \<open>
  C7. For every generated trial with non-negative reward probabilities and every
  non-negative choice for which \<^verbatim>\<open>process\<close> returns, best is true if and only if the
  reward probability of the chosen cue equals the maximum reward probability among the
  cue slots marked present in \<open>cog\<close>; a cue tied for that maximum is best.
\<close>

theorem best_is_max_present:
  assumes "generated m t" and "\<forall>x \<in> set (rwd t). 0 \<le> x" and "0 \<le> c"
    and "process T t c RT model debug = (Inr (reward, cue, best), T')"
  shows "best \<longleftrightarrow> rwd t ! nat cue = Max (set (map (\<lambda>i. rwd t ! i) (marked (cog t))))"
proof -
  from assms(4) obtain valid where ev: "evaluate t c = Inr (cue, valid, best, reward)"
    using process_returns by blast
  with assms(3) have cue: "0 \<le> cue" "nonzero (column (ass t) (nat c)) = [nat cue]"
    using evaluate_cue by blast+
  from ev assms(3) have c4: "nat c < length (mot t)"
    by (auto simp: evaluate_def py_get_def py_index_def split: if_splits sum.splits)
  from assms(1) have sh: "length (mot t) = 4" "length (cog t) = 4" "length (rwd t) = 4"
    by (simp_all add: generated_def shaped_def)
  from assms(1) cue(2) c4 sh have k: "nat cue < 4" "cog t ! nat cue = 1"
    using generated_cue_marked by auto
  from assms(1) have bin: "binary (cog t)" by (simp add: generated_def)
  let ?p = "map (\<lambda>(x, y). x * y) (zip (cog t) (rwd t))"
  obtain x xs where p: "?p = x # xs"
    using sh by (cases "cog t"; cases "rwd t") auto
  have pk: "?p ! nat cue = rwd t ! nat cue"
    using k sh by simp
  from ev assms(3) cue(2) p have "best \<longleftrightarrow> py_max x xs = ?p ! nat cue"
    by (auto simp: evaluate_def Let_def split: if_splits sum.splits)
  also have "py_max x xs = Max (set ?p)"
    using p by (simp add: py_max_Max)
  also have "Max (set ?p) = Max (set (map (\<lambda>i. rwd t ! i) (marked (cog t))))"
    using Max_present [of "cog t" "rwd t" "nat cue"] sh bin assms(2) k by simp
  finally show ?thesis using pk by auto
qed

lemma process_example_1:
  "process example_task example_trial 1 0 None False =
     (Inr (True, 0, True),
      example_task\<lparr>records := [fill 1 0 True True 0 True None zero_record, zero_record]\<rparr>)"
  by (simp add: process_def evaluate_def example_trial_def py_get_def py_index_def nonzero_def
      column_def upt4 write_record_def example_task_def)

lemma process_example_2:
  "process example_task example_trial 2 0 None False =
     (Inr (False, 2, False),
      example_task\<lparr>records := [fill 2 2 False True 0 False None zero_record, zero_record]\<rparr>)"
  by (simp add: process_def evaluate_def example_trial_def py_get_def py_index_def nonzero_def
      column_def upt4 write_record_def example_task_def)

lemma rwd_example_nonneg: "\<forall>x \<in> set (rwd example_trial). 0 \<le> x"
  by (simp add: example_trial_def)

text \<open>
  On the example trial, position 1 (cue 0, probability \<open>0.8\<close>) is best, position 2
  (cue 2, probability \<open>0.2\<close>) is not.
\<close>

theorem best_is_max_present_witness:
  "fst (process example_task example_trial 1 0 None False) = Inr (True, 0, True) \<and>
   rwd example_trial ! nat 0 =
     Max (set (map (\<lambda>i. rwd example_trial ! i) (marked (cog example_trial)))) \<and>
   fst (process example_task example_trial 2 0 None False) = Inr (False, 2, False) \<and>
   rwd example_trial ! nat 2 \<noteq>
     Max (set (map (\<lambda>i. rwd example_trial ! i) (marked (cog example_trial))))"
  using best_is_max_present [OF generated_example_trial rwd_example_nonneg _ process_example_1]
    best_is_max_present [OF generated_example_trial rwd_example_nonneg _ process_example_2]
  by (simp add: process_example_1 process_example_2)

subsection \<open>What \<^verbatim>\<open>process\<close> changes\<close>







section \<open>Properties of \<^verbatim>\<open>setup\<close> and of the iteration\<close>

subsection \<open>The number of trials\<close>

lemma uniform_length: "length (fst (uniform R n g)) = n"
proof (induction n arbitrary: g)
  case 0
  then show ?case by simp
next
  case (Suc n)
  obtain x g1 where d: "draw R g = (x, g1)" by (cases "draw R g")
  obtain xs g2 where u: "uniform R n g1 = (xs, g2)" by (cases "uniform R n g1")
  from Suc [of g1] u have "length xs = n" by simp
  with d u show ?case by simp
qed

lemma length_set_rnd: "length xs = length ts \<Longrightarrow> length (set_rnd ts xs) = length ts"
  by (simp add: set_rnd_def)

lemma build_trials_length:
  "build_trials R b k idx ts g = Inr (idx', ts', g') \<Longrightarrow>
     length ts' = length ts \<and> idx' = idx + k"
proof (induction k arbitrary: idx ts g)
  case 0
  then show ?case by simp
next
  case (Suc k)
  then show ?case
    by (fastforce simp: Let_def split: prod.splits sum.splits if_splits)
qed

lemma build_blocks_length:
  "build_blocks R bs idx ts g = Inr (ts', g') \<Longrightarrow> length ts' = length ts"
proof (induction bs arbitrary: idx ts g)
  case Nil
  then show ?case by simp
next
  case (Cons b bs)
  then show ?case
    by (fastforce split: sum.splits dest: build_trials_length)
qed

lemma setup_task_length:
  assumes "setup_task R T g = Inr (T', g')"
    and "get_blocks (named (parameters T)) (session (parameters T)) = Inr bs"
  shows "int (length (trials T')) = total_trials bs \<and>
    length (records T') = length (trials T') \<and> parameters T' = parameters T \<and>
    blocks T' = block_ranges 0 bs"
proof -
  let ?n = "total_trials bs"
  from assms have n: "0 \<le> ?n"
    by (auto simp: setup_task_def Let_def split: if_splits)
  obtain xs g1 where u: "uniform R (nat ?n) g = (xs, g1)"
    by (cases "uniform R (nat ?n) g")
  then have lx: "length xs = nat ?n"
    using uniform_length [of R "nat ?n" g] by simp
  from assms n u obtain ts where
    b: "build_blocks R bs 0 (set_rnd (replicate (nat ?n) zero_trial) xs) g1 = Inr (ts, g')"
    and T': "T' = T\<lparr>blocks := block_ranges 0 bs, trials := ts,
      records := replicate (nat ?n) zero_record\<rparr>"
    by (auto simp: setup_task_def Let_def split: sum.splits)
  from b have "length ts = length (set_rnd (replicate (nat ?n) zero_trial) xs)"
    by (rule build_blocks_length)
  with lx have "length ts = nat ?n"
    by (simp add: length_set_rnd)
  with T' n show ?thesis by simp
qed

subsection \<open>The cursor\<close>

text \<open>
  A pass that starts with the cursor at \<open>i\<close> returns the trials from \<open>i + 1\<close> up to
  the stop, in order, and leaves the cursor not started.
\<close>

lemma drain_from:
  assumes "index T = Some i" and "index_stop T = Some s"
    and "- 1 \<le> i" and "s \<le> int (length (trials T))"
  shows "drain T = (Inr (map (\<lambda>k. trials T ! k) [nat (i + 1) ..< nat s]), not_started T)"
  using assms
proof (induction "nat (s - (i + 1))" arbitrary: T i)
  case 0
  then have "\<not> i + 1 < s" by simp
  with 0 show ?case
    by (subst drain.simps) (simp add: next_trial_def not_started_def)
next
  case (Suc n)
  then have lt: "i + 1 < s" by simp
  let ?T1 = "T\<lparr>index := Some (i + 1)\<rparr>"
  from Suc.prems lt have g: "py_get (trials T) (i + 1) = Inr (trials T ! nat (i + 1))"
    by (simp add: py_get_def py_index_def)
  with Suc.prems lt have nx: "next_trial T = (Inr (trials T ! nat (i + 1)), ?T1)"
    by (simp add: next_trial_def)
  from Suc(2) have n: "n = nat (s - (i + 1 + 1))" by simp
  have "drain ?T1 =
    (Inr (map (\<lambda>k. trials ?T1 ! k) [nat (i + 1 + 1) ..< nat s]), not_started ?T1)"
    using Suc.prems lt by (intro Suc(1) [OF n]) simp_all
  then have d: "drain ?T1 =
    (Inr (map (\<lambda>k. trials T ! k) [nat (i + 1 + 1) ..< nat s]), not_started T)"
    by (simp add: not_started_def)
  from Suc.prems lt have "[nat (i + 1) ..< nat s] = nat (i + 1) # [nat (i + 1 + 1) ..< nat s]"
    by (simp add: upt_conv_Cons nat_add_distrib Suc_nat_eq_nat_zadd1)
  with nx d show ?case
    by (subst drain.simps) simp
qed

lemma py_get_error: "py_get xs i = Inl e \<Longrightarrow> e = IndexError"
  by (auto simp: py_get_def py_index_def split: if_splits)

lemma drain_resets:
  "drain T = (Inr ts, T') \<Longrightarrow>
     index T' = None \<and> index_start T' = None \<and> index_stop T' = None \<and>
     parameters T' = parameters T"
proof (induction T arbitrary: ts T' rule: drain.induct)
  case (1 T)
  obtain r T1 where nx: "next_trial T = (r, T1)" by (cases "next_trial T")
  show ?case
  proof (cases r)
    case (Inl e)
    with nx "1.prems" have e: "e = StopIteration" and T': "T' = T1"
      by (auto simp: drain.simps [of T] split: if_splits)
    from nx Inl e show ?thesis
      unfolding T'
      by (auto simp: next_trial_def Let_def split: option.splits if_splits sum.splits
          dest: py_get_error)
  next
    case (Inr t)
    obtain r2 T2 where d: "drain T1 = (r2, T2)" by (cases "drain T1")
    with nx Inr "1.prems" obtain ts' where r2: "r2 = Inr ts'" and T': "T' = T2"
      by (auto simp: drain.simps [of T] split: sum.splits)
    from "1.IH" [OF nx [symmetric] Inr d [unfolded r2]]
    have "index T2 = None \<and> index_start T2 = None \<and> index_stop T2 = None \<and>
      parameters T2 = parameters T1" .
    moreover from nx Inr have "parameters T1 = parameters T"
      by (auto simp: next_trial_def Let_def split: option.splits if_splits sum.splits)
    ultimately show ?thesis unfolding T' by simp
  qed
qed

lemma setup_task_cursor:
  "setup_task R T g = Inr (T', g') \<Longrightarrow>
     index T' = index T \<and> index_start T' = index_start T \<and> index_stop T' = index_stop T \<and>
     parameters T' = parameters T"
  by (auto simp: setup_task_def Let_def split: sum.splits if_splits prod.splits)

lemma iterate_not_started:
  assumes "index_start T = None" and "iterate R T g = Inr (ts, T', g')"
  shows "\<exists>Ts. setup_task R T g = Inr (Ts, g') \<and> ts = trials Ts \<and> T' = not_started Ts"
proof -
  from assms obtain Ts g1 where s: "setup_task R T g = Inr (Ts, g1)"
    by (auto simp: iterate_def iter_def split: sum.splits)
  let ?T1 = "Ts\<lparr>index_start := Some (- 1), index_stop := Some (int (len Ts)),
    index := Some (- 1)\<rparr>"
  have "drain ?T1 = (Inr (map (\<lambda>k. trials ?T1 ! k) [nat (- 1 + 1) ..< nat (int (len Ts))]),
    not_started ?T1)"
    by (rule drain_from) (simp_all add: len_def)
  then have "drain ?T1 = (Inr (trials Ts), not_started Ts)"
    by (simp add: len_def map_nth not_started_def)
  with assms s show ?thesis
    by (simp add: iterate_def iter_def)
qed

subsection \<open>The example session, evaluated\<close>

lemma get_blocks_example:
  "get_blocks (named example_config) (session example_config) = Inr [block_A, block_B]"
  by (simp add: example_config_def)

lemma choice_A:
  "choice example_rng (length (block_cue block_A)) 2 (normalise (block_cue block_A)) g =
     (Inr [0, 1], Suc g)"
  "choice example_rng (length (block_cue block_A)) 2 (normalise (block_pos block_A)) g =
     (Inr [0, 1], Suc g)"
  by (simp_all add: example_rng_def normalise_def upt4 block_A_def)

lemma choice_B:
  "choice example_rng (length (block_cue block_B)) 2 (normalise (block_cue block_B)) g =
     (Inr [1, 3], Suc g)"
  "choice example_rng (length (block_cue block_B)) 2 (normalise (block_pos block_B)) g =
     (Inr [0, 3], Suc g)"
  by (simp_all add: example_rng_def normalise_def upt4 block_B_def)

lemma uniform_2:
  "uniform example_rng (Suc (Suc 0)) g = ([1 / (real g + 2), 1 / (real g + 3)], g + 2)"
  by (simp add: example_rng_def add.commute)

lemma build_trial_A:
  "build_trial (zero_trial\<lparr>rnd := x\<rparr>) [0, Suc 0] [0, Suc 0] (block_rwd block_A) =
     Inr (trial_A x)"
  by (simp add: build_trial_def mark_def associate.simps broadcast_def zero_trial_def
      trial_A_def block_A_def numeral_eq_Suc)

lemma build_trial_B:
  "build_trial (zero_trial\<lparr>rnd := x\<rparr>) [Suc 0, 3] [0, 3] (block_rwd block_B) =
     Inr (half_trial\<lparr>rnd := x\<rparr>)"
  by (simp add: build_trial_def mark_def associate.simps broadcast_def zero_trial_def
      half_trial_def block_B_def numeral_eq_Suc)

lemma build_trials_A:
  "build_trials example_rng block_A (Suc 0) 0 [zero_trial\<lparr>rnd := x\<rparr>, t] g =
     Inr (Suc 0, [trial_A x, t], g + 2)"
proof -
  have c: "n_cue block_A = None"
    by (simp add: block_A_def)
  show ?thesis
    by (simp add: c choice_A build_trial_A)
qed

lemma build_trials_B:
  "build_trials example_rng block_B (Suc 0) (Suc 0) [t, zero_trial\<lparr>rnd := y\<rparr>] g =
     Inr (Suc (Suc 0), [t, half_trial\<lparr>rnd := y\<rparr>], g + 2)"
proof -
  have c: "n_cue block_B = Some 2"
    by (simp add: block_B_def)
  show ?thesis
    by (simp add: c choice_B build_trial_B)
qed

lemma build_blocks_example:
  "build_blocks example_rng [block_A, block_B] 0
     [zero_trial\<lparr>rnd := x\<rparr>, zero_trial\<lparr>rnd := y\<rparr>] g =
     Inr ([trial_A x, half_trial\<lparr>rnd := y\<rparr>], g + 4)"
proof -
  have n: "nat (n_trial block_A) = Suc 0" "nat (n_trial block_B) = Suc 0"
    by (simp_all add: block_A_def block_B_def)
  show ?thesis
    by (simp add: n build_trials_A build_trials_B del: build_trials.simps)
qed

lemma setup_example:
  assumes "parameters T = example_config"
  shows "setup_task example_rng T g =
     Inr (T\<lparr>blocks := [(0, 1), (1, 2)],
            trials := [trial_A (1 / (real g + 2)), half_trial\<lparr>rnd := 1 / (real g + 3)\<rparr>],
            records := [zero_record, zero_record]\<rparr>, g + 6)"
proof -
  have n: "total_trials [block_A, block_B] = 2"
    "block_ranges 0 [block_A, block_B] = [(0, 1), (1, 2)]"
    by (simp_all add: total_trials_def block_A_def block_B_def)
  have u: "uniform example_rng 2 g = ([1 / (real g + 2), 1 / (real g + 3)], g + 2)"
    using uniform_2 [of g] by (simp add: numeral_2_eq_2)
  have r: "set_rnd (replicate 2 zero_trial) [x, y] =
    [zero_trial\<lparr>rnd := x\<rparr>, zero_trial\<lparr>rnd := y\<rparr>]" for x y
    by (simp add: set_rnd_def numeral_2_eq_2)
  have rr: "replicate 2 zero_record = [zero_record, zero_record]"
    by (simp add: numeral_2_eq_2)
  have nt: "n_trial block_A = 1" "n_trial block_B = 1"
    by (simp_all add: block_A_def block_B_def)
  show ?thesis
    unfolding setup_task_def assms get_blocks_example
    by (simp add: n nt u r rr build_blocks_example
        del: uniform.simps build_blocks.simps replicate.simps)
qed

lemma init_example:
  "init example_rng example_config g =
     Inr (session_task (1 / (real g + 2)) (1 / (real g + 3)), g + 6)"
  by (simp add: init_def setup_example session_task_def)

lemma drain_session:
  "drain (session_task x y
      \<lparr>index_start := Some (- 1), index_stop := Some 2, index := Some (- 1)\<rparr>) =
     (Inr [trial_A x, half_trial\<lparr>rnd := y\<rparr>], session_task x y)"
  using drain_from [of "session_task x y\<lparr>index_start := Some (- 1), index_stop := Some 2,
    index := Some (- 1)\<rparr>" "- 1" 2]
  by (simp add: session_task_def not_started_def upt_rec)

lemma iterate_example:
  "iterate example_rng (session_task x y) g =
     Inr ([trial_A (1 / (real g + 2)), half_trial\<lparr>rnd := 1 / (real g + 3)\<rparr>],
          session_task (1 / (real g + 2)) (1 / (real g + 3)), g + 6)"
proof -
  have "parameters (session_task x y) = example_config" "index_start (session_task x y) = None"
    by (simp_all add: session_task_def)
  then show ?thesis
    using drain_session [of "1 / (real g + 2)" "1 / (real g + 3)"]
    by (simp add: iterate_def iter_def setup_example len_def session_task_def)
qed

subsection \<open>Length and block scoping\<close>




subsection \<open>Loading a configuration\<close>















section \<open>The trials that \<^verbatim>\<open>setup\<close> builds\<close>

subsection \<open>Marking a vector\<close>

lemma fold_mark:
  fixes v :: "real list"
  shows "length (fold (\<lambda>i w. w[i := 1]) idx v) = length v \<and>
   (\<forall>i < length v. fold (\<lambda>i w. w[i := 1]) idx v ! i = (if i \<in> set idx then 1 else v ! i))"
proof (induction idx arbitrary: v)
  case Nil
  then show ?case by simp
next
  case (Cons a idx)
  show ?case
    using Cons [of "v[a := 1]"] by (auto simp: nth_list_update)
qed

lemma mark_result:
  assumes "mark v idx = Inr w"
  shows "length w = length v \<and> (\<forall>i \<in> set idx. i < length v) \<and>
    (\<forall>i < length v. w ! i = (if i \<in> set idx then 1 else v ! i))"
  using assms fold_mark [of idx v]
  by (auto simp: mark_def list_all_iff split: if_splits)

lemma mark_returns:
  assumes "\<forall>i \<in> set idx. i < length v"
  shows "\<exists>w. mark v idx = Inr w"
  using assms by (simp add: mark_def list_all_iff)

subsection \<open>Associating cues and positions\<close>

lemma associate_result:
  assumes "associate a cps = Inr a'"
  shows "length a' = length a \<and> (\<forall>c. length (a' ! c) = length (a ! c)) \<and>
    (\<forall>(c, p) \<in> set cps. c < length a \<and> p < length (a ! c)) \<and>
    (\<forall>c p. c < length a \<and> p < length (a ! c) \<longrightarrow>
       a' ! c ! p = (if (c, p) \<in> set cps then 1 else a ! c ! p))"
  using assms
proof (induction a cps arbitrary: a' rule: associate.induct)
  case (1 a)
  then show ?case by simp
next
  case (2 a c p cps)
  from "2.prems" have b: "c < length a" "p < length (a ! c)"
    by (auto split: if_splits)
  let ?a1 = "a[c := (a ! c)[p := 1]]"
  from "2.prems" b have r: "associate ?a1 cps = Inr a'" by simp
  from b have l1: "length ?a1 = length a" "\<And>d. length (?a1 ! d) = length (a ! d)"
    by (auto simp: nth_list_update)
  from "2.IH" [OF _ r] b l1 have IH:
    "length a' = length a" "\<And>d. length (a' ! d) = length (a ! d)"
    "\<And>d q. (d, q) \<in> set cps \<Longrightarrow> d < length a \<and> q < length (a ! d)"
    "\<And>d q. d < length a \<Longrightarrow> q < length (a ! d) \<Longrightarrow>
       a' ! d ! q = (if (d, q) \<in> set cps then 1 else ?a1 ! d ! q)"
    by auto
  have "a' ! d ! q = (if (d, q) \<in> set ((c, p) # cps) then 1 else a ! d ! q)"
    if "d < length a" "q < length (a ! d)" for d q
    using IH(4) [OF that] that b by (auto simp: nth_list_update)
  with IH b show ?case by auto
qed

lemma associate_returns:
  assumes "\<forall>(c, p) \<in> set cps. c < length a \<and> p < n" "\<forall>row \<in> set a. length row = n"
  shows "\<exists>a'. associate a cps = Inr a'"
  using assms
proof (induction a cps rule: associate.induct)
  case (1 a)
  then show ?case by simp
next
  case (2 a c p cps)
  then have b: "c < length a" "p < n" "length (a ! c) = n" by auto
  let ?a1 = "a[c := (a ! c)[p := 1]]"
  have "\<forall>row \<in> set ?a1. length row = n"
    using "2.prems"(2) b by (auto dest!: set_update_subset_insert [THEN subsetD])
  moreover have "\<forall>(c, p) \<in> set cps. c < length ?a1 \<and> p < n"
    using "2.prems"(1) by auto
  ultimately have "\<exists>a'. associate ?a1 cps = Inr a'"
    using "2.IH" b by simp
  with b show ?case by simp
qed

subsection \<open>Counting the ones\<close>

lemma count_update:
  assumes "p < length r" "r ! p \<noteq> 1"
  shows "length (filter (\<lambda>x. x = 1) (r[p := (1::real)])) = Suc (length (filter (\<lambda>x. x = 1) r))"
proof -
  have "r = take p r @ r ! p # drop (Suc p) r"
    using assms(1) by (rule id_take_nth_drop)
  then have "length (filter (\<lambda>x. x = 1) r) =
    length (filter (\<lambda>x. x = 1) (take p r)) + length (filter (\<lambda>x. x = 1) (drop (Suc p) r))"
    using assms(2) by (metis (mono_tags, lifting) filter.simps(2) filter_append length_append)
  moreover have "r[p := 1] = take p r @ 1 # drop (Suc p) r"
    using assms(1) by (rule upd_conv_take_nth_drop)
  ultimately show ?thesis by simp
qed

lemma count_ones_update:
  assumes "c < length a" "p < length (a ! c)" "a ! c ! p \<noteq> 1"
  shows "count_ones (a[c := (a ! c)[p := 1]]) = Suc (count_ones a)"
proof -
  have a: "a = take c a @ a ! c # drop (Suc c) a"
    using assms(1) by (rule id_take_nth_drop)
  have u: "a[c := (a ! c)[p := 1]] = take c a @ (a ! c)[p := 1] # drop (Suc c) a"
    using assms(1) by (rule upd_conv_take_nth_drop)
  have "count_ones a = count_ones (take c a) + length (filter (\<lambda>x. x = 1) (a ! c)) +
    count_ones (drop (Suc c) a)"
    by (subst a) (simp add: count_ones_def)
  moreover have "count_ones (a[c := (a ! c)[p := 1]]) =
    count_ones (take c a) + length (filter (\<lambda>x. x = 1) ((a ! c)[p := 1])) +
    count_ones (drop (Suc c) a)"
    by (subst u) (simp add: count_ones_def)
  ultimately show ?thesis
    using count_update [OF assms(2,3)] by simp
qed

lemma associate_count:
  assumes "associate a cps = Inr a'" "distinct cps" "\<forall>(c, p) \<in> set cps. a ! c ! p \<noteq> 1"
  shows "count_ones a' = count_ones a + length cps"
  using assms
proof (induction a cps arbitrary: a' rule: associate.induct)
  case (1 a)
  then show ?case by simp
next
  case (2 a c p cps)
  from "2.prems"(1) have b: "c < length a" "p < length (a ! c)"
    by (auto split: if_splits)
  let ?a1 = "a[c := (a ! c)[p := 1]]"
  from "2.prems"(1) b have r: "associate ?a1 cps = Inr a'" by simp
  have "?a1 ! d ! q \<noteq> 1" if "(d, q) \<in> set cps" for d q
  proof -
    from that "2.prems"(2) have ne: "(d, q) \<noteq> (c, p)" by auto
    from that "2.prems"(3) have "a ! d ! q \<noteq> 1" by auto
    with ne b show ?thesis
      by (cases "d = c") (auto simp: nth_list_update)
  qed
  then have "\<forall>(d, q) \<in> set cps. ?a1 ! d ! q \<noteq> 1" by auto
  with "2.IH" [OF _ r] b "2.prems"(2) have "count_ones a' = count_ones ?a1 + length cps"
    by simp
  moreover from "2.prems"(3) b have "count_ones ?a1 = Suc (count_ones a)"
    by (intro count_ones_update) auto
  ultimately show ?case by simp
qed


subsection \<open>One trial of a block\<close>

lemma length_filter_member:
  assumes "distinct xs" "\<forall>i \<in> set xs. i < n"
  shows "length (filter (\<lambda>i. i \<in> set xs) [0 ..< n]) = length xs"
proof -
  have "length (filter (\<lambda>i. i \<in> set xs) [0 ..< n]) = card ({i. i \<in> set xs} \<inter> set [0 ..< n])"
    by (rule distinct_length_filter) simp
  also have "{i. i \<in> set xs} \<inter> set [0 ..< n] = set xs"
    using assms(2) by auto
  also have "card (set xs) = length xs"
    using assms(1) by (rule distinct_card)
  finally show ?thesis .
qed

lemma count_ones_blank:
  assumes "list_all (list_all (\<lambda>x. x = 0)) a"
  shows "count_ones a = 0"
proof -
  have "\<forall>x \<in> set (concat a). x = 0"
    using assms by (auto simp: list_all_iff)
  then have "\<forall>x \<in> set (concat a). x \<noteq> 1"
    by (metis zero_neq_one)
  then have "filter (\<lambda>x. x = 1) (concat a) = []"
    by (simp add: filter_empty_conv)
  then show ?thesis by (simp add: count_ones_def)
qed

lemma blank_nth:
  assumes "blank t"
  shows "i < 4 \<Longrightarrow> cog t ! i = 0" and "i < 4 \<Longrightarrow> mot t ! i = 0"
    and "c < 4 \<Longrightarrow> p < 4 \<Longrightarrow> ass t ! c ! p = 0"
    and "length (cog t) = 4" "length (mot t) = 4" "length (ass t) = 4" "length (rwd t) = 4"
    and "c < 4 \<Longrightarrow> length (ass t ! c) = 4"
  using assms by (auto simp: blank_def shaped_def list_all_length)

lemma broadcast_length: "broadcast n xs = Inr r \<Longrightarrow> length r = n"
  by (auto simp: broadcast_def split: if_splits)

lemma build_trial_generated:
  assumes bl: "blank t" and bt: "build_trial t cues_idx pos_idx rw = Inr t'"
    and dc: "distinct cues_idx" and dp: "distinct pos_idx"
    and len: "length pos_idx = length cues_idx"
  shows "generated (int (length cues_idx)) t' \<and> rnd t' = rnd t"
proof -
  from bt obtain cg mt a r where
    cg: "mark (cog t) cues_idx = Inr cg" and mt: "mark (mot t) pos_idx = Inr mt"
    and a: "associate (ass t) (zip cues_idx pos_idx) = Inr a"
    and r: "broadcast (length (rwd t)) rw = Inr r"
    and t': "t' = t\<lparr>mot := mt, cog := cg, ass := a, rwd := r\<rparr>"
    by (auto simp: build_trial_def split: sum.splits)
  note b = blank_nth [OF bl]
  from mark_result [OF cg] b have cgp: "length cg = 4" "\<forall>i \<in> set cues_idx. i < 4"
    "\<And>i. i < 4 \<Longrightarrow> cg ! i = (if i \<in> set cues_idx then 1 else 0)"
    by auto
  from mark_result [OF mt] b have mtp: "length mt = 4" "\<forall>i \<in> set pos_idx. i < 4"
    "\<And>i. i < 4 \<Longrightarrow> mt ! i = (if i \<in> set pos_idx then 1 else 0)"
    by auto
  from associate_result [OF a] b have ap: "length a = 4" "\<And>c. c < 4 \<Longrightarrow> length (a ! c) = 4"
    "\<And>c p. c < 4 \<Longrightarrow> p < 4 \<Longrightarrow>
       a ! c ! p = (if (c, p) \<in> set (zip cues_idx pos_idx) then 1 else 0)"
    by auto
  from r b have rl: "length r = 4" using broadcast_length by fastforce
  have sh: "shaped t'"
    using cgp mtp ap rl by (auto simp: shaped_def t' list_all_length)
  have bc: "binary cg" and bm: "binary mt"
    using cgp mtp by (auto simp: binary_def list_all_length)
  have ba: "list_all binary a"
    using ap by (auto simp: binary_def list_all_length)
  have "count_ones a = count_ones (ass t) + length (zip cues_idx pos_idx)"
  proof (rule associate_count [OF a])
    show "distinct (zip cues_idx pos_idx)" using dc by (rule distinct_zipI1)
    show "\<forall>(c, p) \<in> set (zip cues_idx pos_idx). ass t ! c ! p \<noteq> 1"
    proof (clarify)
      fix c p assume z: "(c, p) \<in> set (zip cues_idx pos_idx)" and o: "ass t ! c ! p = 1"
      from z have "c \<in> set cues_idx" "p \<in> set pos_idx"
        by (auto dest: set_zip_leftD set_zip_rightD)
      with cgp(2) mtp(2) have "c < 4" "p < 4" by auto
      then have "ass t ! c ! p = 0" by (rule b(3))
      with o show False by simp
    qed
  qed
  with bl len have cnt: "count_ones a = length cues_idx"
    by (simp add: count_ones_blank blank_def)
  have rows: "(1 \<in> set (a ! c)) \<longleftrightarrow> cg ! c = 1" if c: "c < 4" for c
  proof
    assume "1 \<in> set (a ! c)"
    then obtain p where "p < 4" "a ! c ! p = 1"
      using ap(2) [OF c] by (auto simp: in_set_conv_nth)
    with c ap(3) have "(c, p) \<in> set (zip cues_idx pos_idx)"
      by (auto split: if_splits)
    then have "c \<in> set cues_idx" by (rule set_zip_leftD)
    with c cgp(3) show "cg ! c = 1" by simp
  next
    assume "cg ! c = 1"
    with c cgp(3) have "c \<in> set cues_idx" by (auto split: if_splits)
    with len obtain p where zp: "(c, p) \<in> set (zip cues_idx pos_idx)"
      using in_set_impl_in_set_zip1 [of cues_idx pos_idx c] by auto
    then have "p \<in> set pos_idx" by (rule set_zip_rightD)
    with mtp(2) have p: "p < 4" by simp
    with c zp ap(3) have "a ! c ! p = 1" by simp
    with p ap(2) [OF c] show "1 \<in> set (a ! c)"
      by (metis nth_mem)
  qed
  have cols: "(1 \<in> set (column a p)) \<longleftrightarrow> mt ! p = 1" if p: "p < 4" for p
  proof
    assume "1 \<in> set (column a p)"
    then obtain c where "c < 4" "a ! c ! p = 1"
      using ap(1) by (auto simp: column_def in_set_conv_nth)
    with p ap(3) have "(c, p) \<in> set (zip cues_idx pos_idx)"
      by (auto split: if_splits)
    then have "p \<in> set pos_idx" by (rule set_zip_rightD)
    with p mtp(3) show "mt ! p = 1" by simp
  next
    assume "mt ! p = 1"
    with p mtp(3) have "p \<in> set pos_idx" by (auto split: if_splits)
    with len obtain c where zp: "(c, p) \<in> set (zip cues_idx pos_idx)"
      using in_set_impl_in_set_zip2 [of cues_idx pos_idx p] by auto
    then have "c \<in> set cues_idx" by (rule set_zip_leftD)
    with cgp(2) have c: "c < 4" by simp
    with p zp ap(3) have "a ! c ! p = 1" by simp
    with c ap(1) have "column a p ! c = 1" "c < length (column a p)"
      by (simp_all add: column_def)
    then show "1 \<in> set (column a p)"
      by (metis nth_mem)
  qed
  have cr: "cue_rows a = marked cg"
    unfolding cue_rows_def marked_def ap(1) cgp(1)
    by (rule filter_cong) (auto simp: rows)
  have pc: "pos_columns a = marked mt"
    unfolding pos_columns_def marked_def mtp(1)
    by (rule filter_cong) (auto simp: cols)
  have "marked cg = filter (\<lambda>i. i \<in> set cues_idx) [0 ..< 4]"
    unfolding marked_def cgp(1)
    by (rule filter_cong) (auto simp: cgp(3))
  then have mc: "length (marked cg) = length cues_idx"
    using length_filter_member [OF dc cgp(2)] by simp
  have "marked mt = filter (\<lambda>i. i \<in> set pos_idx) [0 ..< 4]"
    unfolding marked_def mtp(1)
    by (rule filter_cong) (auto simp: mtp(3))
  then have mm: "length (marked mt) = length cues_idx"
    using length_filter_member [OF dp mtp(2)] len by simp
  from sh bc bm ba cnt cr pc mc mm show ?thesis
    by (simp add: generated_def t')
qed


subsection \<open>The loops of \<^verbatim>\<open>setup\<close>\<close>

lemma choice_contractD:
  assumes "choice_contract R" "choice R k sz p g = (Inr xs, g')"
  shows "int (length xs) = sz" "distinct xs" "\<forall>i \<in> set xs. i < k"
  using assms unfolding choice_contract_def by blast+

lemma build_trials_generated:
  assumes "choice_contract R"
    and "build_trials R b k idx ts g = Inr (idx', ts', g')"
    and "\<forall>j. idx \<le> j \<and> j < length ts \<longrightarrow> blank (ts ! j)"
    and "idx \<le> length ts"
  shows "idx + k \<le> length ts \<and> (\<forall>j. j < idx \<or> idx + k \<le> j \<longrightarrow> ts' ! j = ts ! j) \<and>
    (\<forall>j. idx \<le> j \<and> j < idx + k \<longrightarrow> generated (n_cues_of b) (ts' ! j))"
  using assms(2,3,4)
proof (induction k arbitrary: idx ts g)
  case 0
  then show ?case by auto
next
  case (Suc k)
  let ?m = "n_cues_of b"
  from Suc.prems(1) obtain cues_idx g1 where
    c1: "choice R (length (block_cue b)) ?m (normalise (block_cue b)) g = (Inr cues_idx, g1)"
    by (auto simp: n_cues_of_def Let_def split: prod.splits sum.splits)
  from Suc.prems(1) c1 obtain pos_idx g2 where
    c2: "choice R (length (block_cue b)) ?m (normalise (block_pos b)) g1 = (Inr pos_idx, g2)"
    by (auto simp: n_cues_of_def Let_def split: prod.splits sum.splits)
  from Suc.prems(1) c1 c2 have lt: "idx < length ts"
    by (auto simp: n_cues_of_def Let_def split: if_splits)
  from Suc.prems(1) c1 c2 lt obtain t where
    bt: "build_trial (ts ! idx) cues_idx pos_idx (block_rwd b) = Inr t"
    and rest: "build_trials R b k (Suc idx) (ts[idx := t]) g2 = Inr (idx', ts', g')"
    by (auto simp: n_cues_of_def Let_def split: sum.splits)
  note k1 = choice_contractD [OF assms(1) c1] and k2 = choice_contractD [OF assms(1) c2]
  from k1(1) k2(1) have len: "length pos_idx = length cues_idx" by simp
  from Suc.prems(2) lt have "blank (ts ! idx)" by simp
  from build_trial_generated [OF this bt k1(2) k2(2) len] k1(1)
  have gt: "generated ?m t" by simp
  have "\<forall>j. Suc idx \<le> j \<and> j < length (ts[idx := t]) \<longrightarrow> blank (ts[idx := t] ! j)"
    using Suc.prems(2) by simp
  moreover have "Suc idx \<le> length (ts[idx := t])" using lt by simp
  ultimately have "Suc idx + k \<le> length (ts[idx := t]) \<and>
    (\<forall>j. j < Suc idx \<or> Suc idx + k \<le> j \<longrightarrow> ts' ! j = ts[idx := t] ! j) \<and>
    (\<forall>j. Suc idx \<le> j \<and> j < Suc idx + k \<longrightarrow> generated ?m (ts' ! j))"
    by (rule Suc.IH [OF rest])
  then have IH: "Suc idx + k \<le> length ts"
    "\<And>j. j < Suc idx \<or> Suc idx + k \<le> j \<Longrightarrow> ts' ! j = ts[idx := t] ! j"
    "\<And>j. Suc idx \<le> j \<Longrightarrow> j < Suc idx + k \<Longrightarrow> generated ?m (ts' ! j)"
    by auto
  have "ts' ! idx = t" using IH(2) [of idx] lt by simp
  with gt have g0: "generated ?m (ts' ! idx)" by simp
  have "generated ?m (ts' ! j)" if "idx \<le> j" "j < idx + Suc k" for j
    using that g0 IH(3) [of j] by (cases "j = idx") auto
  moreover have "ts' ! j = ts ! j" if "j < idx \<or> idx + Suc k \<le> j" for j
    using that IH(2) [of j] by auto
  ultimately show ?case using IH(1) by auto
qed

lemma owners_Cons: "owners (b # bs) = replicate (nat (n_trial b)) b @ owners bs"
  by (simp add: owners_def)

lemma build_blocks_generated:
  assumes "choice_contract R"
    and "build_blocks R bs idx ts g = Inr (ts', g')"
    and "\<forall>j. idx \<le> j \<and> j < length ts \<longrightarrow> blank (ts ! j)"
    and "idx \<le> length ts"
  shows "idx + length (owners bs) \<le> length ts \<and> (\<forall>j < idx. ts' ! j = ts ! j) \<and>
    (\<forall>j < length (owners bs). generated (n_cues_of (owners bs ! j)) (ts' ! (idx + j)))"
  using assms(2,3,4)
proof (induction bs arbitrary: idx ts g)
  case Nil
  then show ?case by (simp add: owners_def)
next
  case (Cons b bs)
  let ?k = "nat (n_trial b)"
  from Cons.prems(1) obtain idx1 ts1 g1 where
    bt: "build_trials R b ?k idx ts g = Inr (idx1, ts1, g1)"
    and rest: "build_blocks R bs idx1 ts1 g1 = Inr (ts', g')"
    by (auto split: sum.splits)
  from build_trials_length [OF bt] have l1: "length ts1 = length ts" "idx1 = idx + ?k"
    by simp_all
  from build_trials_generated [OF assms(1) bt Cons.prems(2,3)]
  have B: "idx + ?k \<le> length ts" "\<And>j. j < idx \<or> idx + ?k \<le> j \<Longrightarrow> ts1 ! j = ts ! j"
    "\<And>j. idx \<le> j \<Longrightarrow> j < idx + ?k \<Longrightarrow> generated (n_cues_of b) (ts1 ! j)"
    by auto
  have "\<forall>j. idx1 \<le> j \<and> j < length ts1 \<longrightarrow> blank (ts1 ! j)"
    using Cons.prems(2) B(2) l1 by simp
  moreover have "idx1 \<le> length ts1" using B(1) l1 by simp
  ultimately have "idx1 + length (owners bs) \<le> length ts1 \<and> (\<forall>j < idx1. ts' ! j = ts1 ! j) \<and>
    (\<forall>j < length (owners bs). generated (n_cues_of (owners bs ! j)) (ts' ! (idx1 + j)))"
    by (rule Cons.IH [OF rest])
  with l1
  have IH: "idx + ?k + length (owners bs) \<le> length ts"
    "\<And>j. j < idx + ?k \<Longrightarrow> ts' ! j = ts1 ! j"
    "\<And>j. j < length (owners bs) \<Longrightarrow>
       generated (n_cues_of (owners bs ! j)) (ts' ! (idx + ?k + j))"
    by auto
  have "generated (n_cues_of (owners (b # bs) ! j)) (ts' ! (idx + j))"
    if j: "j < length (owners (b # bs))" for j
  proof (cases "j < ?k")
    case True
    then have "owners (b # bs) ! j = b"
      by (simp add: owners_Cons nth_append)
    moreover from True have "ts' ! (idx + j) = ts1 ! (idx + j)"
      by (intro IH(2)) simp
    moreover from True have "generated (n_cues_of b) (ts1 ! (idx + j))"
      by (intro B(3)) simp_all
    ultimately show ?thesis by simp
  next
    case False
    then have "owners (b # bs) ! j = owners bs ! (j - ?k)"
      by (simp add: owners_Cons nth_append)
    moreover from False j have "j - ?k < length (owners bs)"
      by (simp add: owners_Cons)
    then have "generated (n_cues_of (owners bs ! (j - ?k))) (ts' ! (idx + ?k + (j - ?k)))"
      by (rule IH(3))
    moreover from False have "idx + ?k + (j - ?k) = idx + j" by simp
    ultimately show ?thesis by simp
  qed
  moreover have "ts' ! j = ts ! j" if "j < idx" for j
    using that IH(2) [of j] B(2) [of j] by simp
  ultimately show ?case
    using IH(1) by (simp add: owners_Cons)
qed

lemma total_trials_owners: "total_trials bs \<le> int (length (owners bs))"
  by (induction bs) (auto simp: total_trials_def owners_def)

lemma blank_set_rnd:
  assumes "j < length xs" "j < n"
  shows "blank (set_rnd (replicate n zero_trial) xs ! j)"
  using assms by (simp add: set_rnd_def blank_def shaped_def zero_trial_def list_all_length)

lemma setup_task_generated:
  assumes "choice_contract R" and "setup_task R T g = Inr (T', g')"
    and "get_blocks (named (parameters T)) (session (parameters T)) = Inr bs"
  shows "length (trials T') = length (owners bs) \<and>
    (\<forall>j < length (trials T'). generated (n_cues_of (owners bs ! j)) (trials T' ! j))"
proof -
  let ?n = "total_trials bs"
  from assms(2,3) have n: "0 \<le> ?n"
    by (auto simp: setup_task_def Let_def split: if_splits)
  obtain xs g1 where u: "uniform R (nat ?n) g = (xs, g1)"
    by (cases "uniform R (nat ?n) g")
  then have lx: "length xs = nat ?n"
    using uniform_length [of R "nat ?n" g] by simp
  let ?ts = "set_rnd (replicate (nat ?n) zero_trial) xs"
  from assms(2,3) n u have b: "build_blocks R bs 0 ?ts g1 = Inr (trials T', g')"
    by (auto simp: setup_task_def Let_def split: sum.splits)
  have l0: "length ?ts = nat ?n" using lx by (simp add: length_set_rnd)
  have "\<forall>j. 0 \<le> j \<and> j < length ?ts \<longrightarrow> blank (?ts ! j)"
    using l0 lx by (simp add: blank_set_rnd)
  from build_blocks_generated [OF assms(1) b this] l0
  have G: "length (owners bs) \<le> nat ?n"
    "\<And>j. j < length (owners bs) \<Longrightarrow> generated (n_cues_of (owners bs ! j)) (trials T' ! j)"
    by auto
  from build_blocks_length [OF b] l0 have "length (trials T') = nat ?n" by simp
  moreover from total_trials_owners [of bs] have "nat ?n \<le> length (owners bs)" by simp
  ultimately show ?thesis using G by auto
qed

text \<open>
  C6. Let the sampler keep numpy's contract for a draw without replacement. For every
  trial of a task built from a configuration, with \<open>n_cue\<close> the number of cues of the
  block that owns the trial: \<open>ass\<close> has exactly \<open>n_cue\<close> ones and zeros elsewhere, the
  rows of \<open>ass\<close> that contain a one are the cue slots marked in \<open>cog\<close>, the columns
  that contain a one are the positions marked in \<open>mot\<close>, and \<open>n_cue\<close> slots are marked in
  each of \<open>cog\<close> and \<open>mot\<close>: the sampled cue indices, and the sampled position
  indices, are pairwise distinct.
\<close>

theorem generated_trials:
  assumes "choice_contract R" and "init R cfg g = Inr (T, g')"
    and "get_blocks (named cfg) (session cfg) = Inr bs" and "j < length (trials T)"
  shows "j < length (owners bs) \<and> generated (n_cues_of (owners bs ! j)) (trials T ! j)"
  using setup_task_generated [OF assms(1), of _ g T g' bs] assms(2,3,4)
  by (simp add: init_def)

lemma choice_contract_example: "choice_contract example_rng"
  unfolding choice_contract_def
proof (intro allI impI)
  fix k sz p g xs g'
  assume "choice example_rng k sz p g = (Inr xs, g')"
  then obtain ps where ps: "p = Some ps" "length ps = k" "0 \<le> sz"
    "nat sz \<le> length (filter (\<lambda>i. 0 < ps ! i) [0 ..< length ps])"
    "xs = take (nat sz) (filter (\<lambda>i. 0 < ps ! i) [0 ..< length ps])"
    by (auto simp: example_rng_def Let_def split: option.splits if_splits)
  then have "int (length xs) = sz" by simp
  moreover have "distinct xs" using ps(5) by simp
  moreover have "\<forall>i \<in> set xs. i < k"
    using ps(2,5) by (auto dest: in_set_takeD)
  ultimately show "int (length xs) = sz \<and> distinct xs \<and> (\<forall>i \<in> set xs. i < k)"
    by simp
qed

lemma generated_half_trial: "generated 2 (half_trial\<lparr>rnd := x\<rparr>)"
  by (simp add: generated_def shaped_def binary_def count_ones_def cue_rows_def
      pos_columns_def marked_def column_def half_trial_def upt4)

theorem generated_trials_witness:
  "choice_contract example_rng \<and>
   init example_rng example_config 0 = Inr (session_task (1 / 2) (1 / 3), 6) \<and>
   owners [block_A, block_B] ! 1 = block_B \<and> n_cues_of block_B = 2 \<and>
   trials (session_task (1 / 2) (1 / 3)) ! 1 = half_trial\<lparr>rnd := 1 / 3\<rparr> \<and>
   generated 2 (half_trial\<lparr>rnd := 1 / 3\<rparr>)"
proof -
  have i: "init example_rng example_config 0 = Inr (session_task (1 / 2) (1 / 3), 6)"
    using init_example [of 0] by simp
  have j: "1 < length (trials (session_task (1 / 2) (1 / 3)))"
    by (simp add: session_task_def)
  have o: "owners [block_A, block_B] ! 1 = block_B" "n_cues_of block_B = 2"
    "trials (session_task (1 / 2) (1 / 3)) ! 1 = half_trial\<lparr>rnd := 1 / 3\<rparr>"
    by (simp_all add: owners_def block_A_def block_B_def n_cues_of_def session_task_def)
  from generated_trials [OF choice_contract_example i get_blocks_example j] o
  have "generated 2 (half_trial\<lparr>rnd := 1 / 3\<rparr>)" by simp
  with choice_contract_example i o show ?thesis by simp
qed

section \<open>The length of the generated sequences\<close>

lemma build_trial_returns:
  assumes sh: "shaped t" and c: "\<forall>i \<in> set cues_idx. i < 4" and p: "\<forall>i \<in> set pos_idx. i < 4"
    and rw: "length rw = 4 \<or> length rw = 1"
  shows "\<exists>t'. build_trial t cues_idx pos_idx rw = Inr t' \<and> shaped t'"
proof -
  from sh have l: "length (cog t) = 4" "length (mot t) = 4" "length (ass t) = 4"
    "length (rwd t) = 4" "\<forall>row \<in> set (ass t). length row = 4"
    by (simp_all add: shaped_def list_all_iff)
  from c l obtain cg where cg: "mark (cog t) cues_idx = Inr cg"
    using mark_returns [of cues_idx "cog t"] by auto
  from p l obtain mt where mt: "mark (mot t) pos_idx = Inr mt"
    using mark_returns [of pos_idx "mot t"] by auto
  have "\<forall>(c, p) \<in> set (zip cues_idx pos_idx). c < length (ass t) \<and> p < 4"
    using c p l(3) by (auto dest: set_zip_leftD set_zip_rightD)
  from associate_returns [OF this l(5)] obtain a where
    a: "associate (ass t) (zip cues_idx pos_idx) = Inr a"
    by blast
  from rw l(4) obtain r where r: "broadcast (length (rwd t)) rw = Inr r"
    by (auto simp: broadcast_def)
  from mark_result [OF cg] mark_result [OF mt] l have lm: "length cg = 4" "length mt = 4"
    by simp_all
  from l(3,5) have rows: "\<forall>c < 4. length (ass t ! c) = 4"
    by (metis nth_mem)
  with associate_result [OF a] l(3) have la: "length a = 4" "\<forall>c < 4. length (a ! c) = 4"
    by simp_all
  from broadcast_length [OF r] l have lr: "length r = 4" by simp
  have "shaped (t\<lparr>mot := mt, cog := cg, ass := a, rwd := r\<rparr>)"
    using lm la lr by (simp add: shaped_def list_all_length)
  with cg mt a r show ?thesis
    by (simp add: build_trial_def)
qed

lemma build_trials_returns:
  assumes ct: "choice_contract R" and sm: "samples R b" and k4: "length (block_cue b) \<le> 4"
    and rw: "length (block_rwd b) = 4 \<or> length (block_rwd b) = 1"
    and "idx + k \<le> length ts" and "\<forall>t \<in> set ts. shaped t"
  shows "\<exists>ts' g'. build_trials R b k idx ts g = Inr (idx + k, ts', g') \<and>
    length ts' = length ts \<and> (\<forall>t \<in> set ts'. shaped t)"
  using assms(5,6)
proof (induction k arbitrary: idx ts g)
  case 0
  then show ?case by simp
next
  case (Suc k)
  let ?m = "n_cues_of b"
  from sm obtain cues_idx g1 where
    c1: "choice R (length (block_cue b)) ?m (normalise (block_cue b)) g = (Inr cues_idx, g1)"
    unfolding samples_def by blast
  from sm obtain pos_idx g2 where
    c2: "choice R (length (block_cue b)) ?m (normalise (block_pos b)) g1 = (Inr pos_idx, g2)"
    unfolding samples_def by blast
  from choice_contractD(3) [OF ct c1] k4 have b1: "\<forall>i \<in> set cues_idx. i < 4" by auto
  from choice_contractD(3) [OF ct c2] k4 have b2: "\<forall>i \<in> set pos_idx. i < 4" by auto
  from Suc.prems have lt: "idx < length ts" by simp
  with Suc.prems(2) have "shaped (ts ! idx)" by simp
  from build_trial_returns [OF this b1 b2 rw] obtain t where
    t: "build_trial (ts ! idx) cues_idx pos_idx (block_rwd b) = Inr t" "shaped t"
    by blast
  have "\<forall>u \<in> set (ts[idx := t]). shaped u"
    using Suc.prems(2) t(2) by (auto dest!: set_update_subset_insert [THEN subsetD])
  moreover have "Suc idx + k \<le> length (ts[idx := t])"
    using Suc.prems(1) by simp
  ultimately obtain ts' g' where
    r: "build_trials R b k (Suc idx) (ts[idx := t]) g2 = Inr (Suc idx + k, ts', g')"
    "length ts' = length (ts[idx := t])" "\<forall>t \<in> set ts'. shaped t"
    using Suc.IH by blast
  from c1 c2 lt t(1) r(1) have
    "build_trials R b (Suc k) idx ts g = Inr (idx + Suc k, ts', g')"
    by (simp add: n_cues_of_def)
  with r(2,3) show ?case by simp
qed

lemma owners_length:
  "\<forall>b \<in> set bs. 0 \<le> n_trial b \<Longrightarrow> int (length (owners bs)) = total_trials bs"
  by (induction bs) (auto simp: total_trials_def owners_def)

lemma build_blocks_returns:
  assumes ct: "choice_contract R" and "\<forall>b \<in> set bs. well_formed b \<and> samples R b"
    and "idx + length (owners bs) \<le> length ts" and "\<forall>t \<in> set ts. shaped t"
  shows "\<exists>ts' g'. build_blocks R bs idx ts g = Inr (ts', g')"
  using assms(2,3,4)
proof (induction bs arbitrary: idx ts g)
  case Nil
  then show ?case by simp
next
  case (Cons b bs)
  let ?k = "nat (n_trial b)"
  from Cons.prems(1) have wf: "length (block_cue b) \<le> 4"
    "length (block_rwd b) = 4 \<or> length (block_rwd b) = 1" and sm: "samples R b"
    by (simp_all add: well_formed_def)
  from Cons.prems(2) have le: "idx + ?k \<le> length ts"
    by (simp add: owners_Cons)
  from build_trials_returns [OF ct sm wf le Cons.prems(3)] obtain ts1 g1 where
    t: "build_trials R b ?k idx ts g = Inr (idx + ?k, ts1, g1)" "length ts1 = length ts"
    "\<forall>t \<in> set ts1. shaped t"
    by blast
  have "idx + ?k + length (owners bs) \<le> length ts1"
    using Cons.prems(2) t(2) by (simp add: owners_Cons)
  with Cons.IH [of "idx + ?k" ts1 g1] Cons.prems(1) t(3) obtain ts' g' where
    "build_blocks R bs (idx + ?k) ts1 g1 = Inr (ts', g')"
    by auto
  with t(1) show ?case by simp
qed

lemma shaped_set_rnd: "\<forall>t \<in> set (set_rnd (replicate n zero_trial) xs). shaped t"
  by (auto simp: set_rnd_def shaped_def zero_trial_def list_all_length dest!: set_zip_leftD)

text \<open>
  C8. For every configuration whose blocks are all defined and well formed, and whose
  weights the sampler accepts, the task is constructed, and its trial sequence and its
  records sequence have a length equal to the sum of the per-block \<open>n_trial\<close> values.
\<close>

theorem trials_length:
  assumes "choice_contract R" and "get_blocks (named cfg) (session cfg) = Inr bs"
    and "\<forall>b \<in> set bs. well_formed b \<and> samples R b"
  shows "\<exists>T g'. init R cfg g = Inr (T, g') \<and> int (length (trials T)) = total_trials bs \<and>
    length (records T) = length (trials T)"
proof -
  let ?n = "total_trials bs"
  let ?T0 = "\<lparr>parameters = cfg, blocks = [], trials = [], records = [],
    index = None, index_start = None, index_stop = None\<rparr>"
  from assms(3) have nn: "\<forall>b \<in> set bs. 0 \<le> n_trial b"
    by (simp add: well_formed_def)
  from owners_length [OF nn] have o: "int (length (owners bs)) = ?n" .
  then have n0: "0 \<le> ?n" by linarith
  obtain xs g1 where u: "uniform R (nat ?n) g = (xs, g1)"
    by (cases "uniform R (nat ?n) g")
  then have lx: "length xs = nat ?n"
    using uniform_length [of R "nat ?n" g] by simp
  let ?ts = "set_rnd (replicate (nat ?n) zero_trial) xs"
  have "0 + length (owners bs) \<le> length ?ts"
    using lx o by (simp add: length_set_rnd)
  from build_blocks_returns [OF assms(1,3) this shaped_set_rnd] obtain ts' g' where
    "build_blocks R bs 0 ?ts g1 = Inr (ts', g')"
    by blast
  with assms(2) n0 u have s: "setup_task R ?T0 g =
    Inr (?T0\<lparr>blocks := block_ranges 0 bs, trials := ts',
      records := replicate (nat ?n) zero_record\<rparr>, g')"
    by (simp add: setup_task_def)
  from setup_task_length [OF s] assms(2) s show ?thesis
    by (simp add: init_def)
qed

lemma samples_example: "samples example_rng block_A" "samples example_rng block_B"
  using choice_A choice_B
  by (simp_all add: samples_def n_cues_of_def block_A_def block_B_def)

lemma well_formed_example: "well_formed block_A" "well_formed block_B"
  by (simp_all add: well_formed_def block_A_def block_B_def)

theorem trials_length_witness:
  "choice_contract example_rng \<and> well_formed block_A \<and> samples example_rng block_A \<and>
   well_formed block_B \<and> samples example_rng block_B \<and>
   init example_rng example_config 0 = Inr (session_task (1 / 2) (1 / 3), 6) \<and>
   total_trials [block_A, block_B] = 2 \<and>
   int (length (trials (session_task (1 / 2) (1 / 3)))) = total_trials [block_A, block_B] \<and>
   length (records (session_task (1 / 2) (1 / 3))) =
     length (trials (session_task (1 / 2) (1 / 3)))"
proof -
  have h: "\<forall>b \<in> set [block_A, block_B]. well_formed b \<and> samples example_rng b"
    using samples_example well_formed_example by simp
  have i: "init example_rng example_config 0 = Inr (session_task (1 / 2) (1 / 3), 6)"
    using init_example [of 0] by simp
  have t: "total_trials [block_A, block_B] = 2"
    by (simp add: total_trials_def block_A_def block_B_def)
  from trials_length [OF choice_contract_example get_blocks_example h, of 0] i
  have "int (length (trials (session_task (1 / 2) (1 / 3)))) = total_trials [block_A, block_B] \<and>
    length (records (session_task (1 / 2) (1 / 3))) =
      length (trials (session_task (1 / 2) (1 / 3)))"
    by auto
  with choice_contract_example samples_example well_formed_example i t show ?thesis
    by simp
qed

section \<open>Iterating again\<close>

subsection \<open>The ranges of the blocks\<close>

lemma build_trials_bound:
  "build_trials R b k idx ts g = Inr (idx', ts', g') \<Longrightarrow> idx \<le> length ts \<Longrightarrow>
     idx + k \<le> length ts"
proof (induction k arbitrary: idx ts g)
  case 0
  then show ?case by simp
next
  case (Suc k)
  from Suc.prems(1) obtain t g2 where lt: "idx < length ts"
    and rest: "build_trials R b k (Suc idx) (ts[idx := t]) g2 = Inr (idx', ts', g')"
    by (auto simp: Let_def split: prod.splits sum.splits if_splits)
  from Suc.IH [OF rest] lt show ?case by simp
qed

lemma build_blocks_bound:
  "build_blocks R bs idx ts g = Inr (ts', g') \<Longrightarrow> idx \<le> length ts \<Longrightarrow>
     idx + length (owners bs) \<le> length ts"
proof (induction bs arbitrary: idx ts g)
  case Nil
  then show ?case by (simp add: owners_def)
next
  case (Cons b bs)
  from Cons.prems(1) obtain idx1 ts1 g1 where
    bt: "build_trials R b (nat (n_trial b)) idx ts g = Inr (idx1, ts1, g1)"
    and rest: "build_blocks R bs idx1 ts1 g1 = Inr (ts', g')"
    by (auto split: sum.splits)
  from build_trials_length [OF bt] have l: "length ts1 = length ts"
    "idx1 = idx + nat (n_trial b)" by simp_all
  from build_trials_bound [OF bt Cons.prems(2)] l have "idx1 \<le> length ts1" by simp
  from Cons.IH [OF rest this] l show ?case by (simp add: owners_Cons)
qed

lemma owners_total_nonneg:
  "int (length (owners bs)) = total_trials bs \<Longrightarrow> \<forall>b \<in> set bs. 0 \<le> n_trial b"
proof (induction bs)
  case Nil
  then show ?case by simp
next
  case (Cons b bs)
  have t: "total_trials (b # bs) = n_trial b + total_trials bs"
    by (simp add: total_trials_def)
  have o: "int (length (owners (b # bs))) = int (nat (n_trial b)) + int (length (owners bs))"
    by (simp add: owners_Cons)
  from total_trials_owners [of bs] Cons.prems t o
  have "0 \<le> n_trial b" "int (length (owners bs)) = total_trials bs" by linarith+
  with Cons.IH show ?case by simp
qed

lemma block_ranges_bounds:
  "\<forall>b \<in> set bs. 0 \<le> n_trial b \<Longrightarrow> (s, e) \<in> set (block_ranges a bs) \<Longrightarrow>
     a \<le> s \<and> s \<le> e \<and> e \<le> a + total_trials bs"
proof (induction bs arbitrary: a)
  case Nil
  then show ?case by simp
next
  case (Cons b bs)
  have t: "total_trials (b # bs) = n_trial b + total_trials bs"
    by (simp add: total_trials_def)
  have tn: "0 \<le> total_trials bs"
    unfolding total_trials_def using Cons.prems(1) by (intro sum_list_nonneg) auto
  show ?case
  proof (cases "(s, e) = (a, a + n_trial b)")
    case True
    with Cons.prems(1) t tn show ?thesis by simp
  next
    case False
    with Cons.prems(2) have "(s, e) \<in> set (block_ranges (a + n_trial b) bs)" by auto
    with Cons.IH [of "a + n_trial b"] Cons.prems(1) t show ?thesis by simp
  qed
qed

lemma setup_task_blocks_bounds:
  assumes "setup_task R T g = Inr (Ts, g1)" and "(s, e) \<in> set (blocks Ts)"
  shows "0 \<le> s \<and> s \<le> e \<and> e \<le> int (length (trials Ts))"
proof -
  from assms(1) obtain bs where
    bs: "get_blocks (named (parameters T)) (session (parameters T)) = Inr bs"
    by (auto simp: setup_task_def split: sum.splits)
  let ?n = "total_trials bs"
  from assms(1) bs have n: "0 \<le> ?n"
    by (auto simp: setup_task_def Let_def split: if_splits)
  obtain xs g' where u: "uniform R (nat ?n) g = (xs, g')"
    by (cases "uniform R (nat ?n) g")
  then have lx: "length xs = nat ?n"
    using uniform_length [of R "nat ?n" g] by simp
  let ?ts = "set_rnd (replicate (nat ?n) zero_trial) xs"
  from assms(1) bs n u have b: "build_blocks R bs 0 ?ts g' = Inr (trials Ts, g1)"
    by (auto simp: setup_task_def Let_def split: sum.splits)
  have l0: "length ?ts = nat ?n" using lx by (simp add: length_set_rnd)
  from build_blocks_bound [OF b] l0 have "length (owners bs) \<le> nat ?n" by simp
  with total_trials_owners [of bs] n have "int (length (owners bs)) = ?n" by linarith
  then have nn: "\<forall>b \<in> set bs. 0 \<le> n_trial b" by (rule owners_total_nonneg)
  from setup_task_length [OF assms(1) bs]
  have l: "int (length (trials Ts)) = ?n" "blocks Ts = block_ranges 0 bs" by simp_all
  from block_ranges_bounds [OF nn, of s e 0] assms(2) l show ?thesis by simp
qed

lemma py_get_mem: "py_get xs i = Inr x \<Longrightarrow> x \<in> set xs"
  by (auto simp: py_get_def py_index_def split: if_splits)

lemma setup_task_parameters:
  assumes "setup_task R T g = Inr (Ts, g1)" and "parameters T' = parameters T"
  shows "setup_task R T' g =
    Inr (T'\<lparr>blocks := blocks Ts, trials := trials Ts, records := records Ts\<rparr>, g1)"
  using assms
  by (auto simp: setup_task_def Let_def split: sum.splits if_splits prod.splits)

lemma iterate_block:
  assumes "setup_task R T g = Inr (Ts, g1)" and "block (not_started Ts) i = Inr Tb"
  shows "\<exists>start stop. py_get (blocks (not_started Ts)) i = Inr (start, stop) \<and>
    0 \<le> start \<and> start \<le> stop \<and> stop \<le> int (length (trials Ts)) \<and>
    iterate R Tb g' =
      Inr (map (\<lambda>k. trials Ts ! k) [nat start ..< nat stop], not_started Ts, g')"
proof -
  from assms(2) obtain start stop where
    pg: "py_get (blocks (not_started Ts)) i = Inr (start, stop)"
    and Tb: "Tb = not_started Ts\<lparr>index_start := Some (start - 1), index_stop := Some stop,
      index := Some (start - 1)\<rparr>"
    by (auto simp: block_def split: sum.splits)
  from pg have "(start, stop) \<in> set (blocks Ts)"
    using py_get_mem [of "blocks Ts" i "(start, stop)"] by (simp add: not_started_def)
  from setup_task_blocks_bounds [OF assms(1) this]
  have b: "0 \<le> start" "start \<le> stop" "stop \<le> int (length (trials Ts))" by simp_all
  have "drain Tb =
    (Inr (map (\<lambda>k. trials Tb ! k) [nat (start - 1 + 1) ..< nat stop]), not_started Tb)"
    using b by (intro drain_from) (simp_all add: Tb not_started_def)
  moreover have "not_started Tb = not_started Ts" "trials Tb = trials Ts"
    by (simp_all add: Tb not_started_def)
  ultimately have "drain Tb =
    (Inr (map (\<lambda>k. trials Ts ! k) [nat start ..< nat stop]), not_started Ts)"
    by simp
  moreover have "iter R Tb g' = Inr (Tb, g')" by (simp add: Tb iter_def)
  ultimately have "iterate R Tb g' =
    Inr (map (\<lambda>k. trials Ts ! k) [nat start ..< nat stop], not_started Ts, g')"
    by (simp add: iterate_def)
  with pg b show ?thesis by blast
qed

subsection \<open>A pass after a pass\<close>

text \<open>
  C1, as the code has it. Fully iterating a task that is not scoped to a block runs
  \<^verbatim>\<open>setup\<close>, returns the trials it built, in order, and leaves the cursor not started.
  The iteration is restartable: \<^verbatim>\<open>__iter__\<close> then runs \<^verbatim>\<open>setup\<close> again. Restarted with the
  random generator in the state it had at the start of the first pass, the second pass
  returns the same trials in the same order and leaves the same task. Restarted with
  the generator as the first pass left it, the second pass returns the trials that
  \<^verbatim>\<open>setup\<close> builds from that state, as many as the first pass returned. A pass scoped
  with \<^verbatim>\<open>block(i)\<close> draws nothing: it returns the trials of the block's range
  \<open>[start, stop)\<close> as the last full pass built them and leaves the task as it was, so
  scoping and iterating again returns the same trials in the same order.
\<close>

theorem iterate_again:
  assumes "index_start T = None" and "iterate R T g = Inr (ts1, T1, g1)"
  shows "index T1 = None \<and> index_start T1 = None \<and> index_stop T1 = None \<and>
    ts1 = trials T1 \<and>
    iterate R T1 g = Inr (ts1, T1, g1) \<and>
    (\<forall>ts2 T2 g2. iterate R T1 g1 = Inr (ts2, T2, g2) \<longrightarrow>
       (\<exists>Ts. setup_task R T1 g1 = Inr (Ts, g2) \<and> ts2 = trials Ts) \<and> ts2 = trials T2 \<and>
       length ts2 = length ts1) \<and>
    (\<forall>i Tb g'. block T1 i = Inr Tb \<longrightarrow>
       (\<exists>start stop. py_get (blocks T1) i = Inr (start, stop) \<and>
          0 \<le> start \<and> start \<le> stop \<and> stop \<le> int (length ts1) \<and>
          iterate R Tb g' = Inr (map (\<lambda>k. ts1 ! k) [nat start ..< nat stop], T1, g')))"
proof -
  from iterate_not_started [OF assms] obtain Ts where
    s1: "setup_task R T g = Inr (Ts, g1)" and ts1: "ts1 = trials Ts"
    and T1: "T1 = not_started Ts"
    by blast
  have c: "index T1 = None" "index_start T1 = None" "index_stop T1 = None"
    "ts1 = trials T1"
    by (simp_all add: T1 ts1 not_started_def)
  from setup_task_cursor [OF s1] have p: "parameters T1 = parameters T"
    by (simp add: T1 not_started_def)
  from setup_task_parameters [OF s1 p]
  have "setup_task R T1 g =
    Inr (T1\<lparr>blocks := blocks Ts, trials := trials Ts, records := records Ts\<rparr>, g1)" .
  moreover have "T1\<lparr>blocks := blocks Ts, trials := trials Ts, records := records Ts\<rparr> = T1"
    by (simp add: T1 not_started_def)
  ultimately have s1': "setup_task R T1 g = Inr (T1, g1)" by simp
  have again: "iterate R T1 g = Inr (ts1, T1, g1)"
  proof -
    let ?Ti = "T1\<lparr>index_start := Some (- 1), index_stop := Some (int (len T1)),
      index := Some (- 1)\<rparr>"
    have "drain ?Ti =
      (Inr (map (\<lambda>k. trials ?Ti ! k) [nat (- 1 + 1) ..< nat (int (len T1))]), not_started ?Ti)"
      by (rule drain_from) (simp_all add: len_def)
    moreover have "not_started ?Ti = T1"
      by (simp add: T1 not_started_def)
    ultimately have "drain ?Ti = (Inr (trials T1), T1)"
      by (simp add: len_def map_nth)
    with c s1' show ?thesis
      by (simp add: iterate_def iter_def)
  qed
  have second: "(\<exists>Ts. setup_task R T1 g1 = Inr (Ts, g2) \<and> ts2 = trials Ts) \<and> ts2 = trials T2 \<and>
       length ts2 = length ts1"
    if it: "iterate R T1 g1 = Inr (ts2, T2, g2)" for ts2 T2 g2
  proof -
    from iterate_not_started [OF c(2) it] obtain Ts2 where
      s2: "setup_task R T1 g1 = Inr (Ts2, g2)" "ts2 = trials Ts2" "T2 = not_started Ts2"
      by blast
    obtain bs where bs: "get_blocks (named (parameters T)) (session (parameters T)) = Inr bs"
      using s1 by (auto simp: setup_task_def split: sum.splits)
    from setup_task_length [OF s1 bs]
    have "int (length (trials Ts)) = total_trials bs" by simp
    moreover from s2(1) bs p have "int (length (trials Ts2)) = total_trials bs"
      using setup_task_length [of R T1 g1 Ts2 g2 bs] by simp
    ultimately show ?thesis
      using s2 ts1 by (auto simp: not_started_def)
  qed
  have scoped: "\<exists>start stop. py_get (blocks T1) i = Inr (start, stop) \<and>
          0 \<le> start \<and> start \<le> stop \<and> stop \<le> int (length ts1) \<and>
          iterate R Tb g' = Inr (map (\<lambda>k. ts1 ! k) [nat start ..< nat stop], T1, g')"
    if "block T1 i = Inr Tb" for i Tb g'
    using iterate_block [OF s1, of i Tb g'] that by (simp add: T1 ts1)
  from c again second scoped show ?thesis by blast
qed

lemma iterate_example_block:
  "block (session_task x y) 1 =
     Inr (session_task x y\<lparr>index_start := Some 0, index_stop := Some 2, index := Some 0\<rparr>)"
  by (simp add: block_def py_get_def py_index_def session_task_def)

theorem iterate_again_witness:
  "index_start (session_task (1 / 2) (1 / 3)) = None \<and>
   iterate example_rng (session_task (1 / 2) (1 / 3)) 6 =
     Inr ([trial_A (1 / 8), half_trial\<lparr>rnd := 1 / 9\<rparr>], session_task (1 / 8) (1 / 9), 12) \<and>
   iterate example_rng (session_task (1 / 8) (1 / 9)) 6 =
     Inr ([trial_A (1 / 8), half_trial\<lparr>rnd := 1 / 9\<rparr>], session_task (1 / 8) (1 / 9), 12) \<and>
   block (session_task (1 / 8) (1 / 9)) 1 =
     Inr (session_task (1 / 8) (1 / 9)
       \<lparr>index_start := Some 0, index_stop := Some 2, index := Some 0\<rparr>) \<and>
   iterate example_rng (session_task (1 / 8) (1 / 9)
       \<lparr>index_start := Some 0, index_stop := Some 2, index := Some 0\<rparr>) 12 =
     Inr ([half_trial\<lparr>rnd := 1 / 9\<rparr>], session_task (1 / 8) (1 / 9), 12)"
proof -
  have s: "index_start (session_task (1 / 2) (1 / 3)) = None"
    by (simp add: session_task_def)
  have a: "iterate example_rng (session_task (1 / 2) (1 / 3)) 6 =
     Inr ([trial_A (1 / 8), half_trial\<lparr>rnd := 1 / 9\<rparr>], session_task (1 / 8) (1 / 9), 12)"
    using iterate_example [of "1 / 2" "1 / 3" 6] by simp
  note b = iterate_example_block [of "1 / 8" "1 / 9"]
  note th = iterate_again [OF s a]
  from th have again: "iterate example_rng (session_task (1 / 8) (1 / 9)) 6 =
     Inr ([trial_A (1 / 8), half_trial\<lparr>rnd := 1 / 9\<rparr>], session_task (1 / 8) (1 / 9), 12)"
    by blast
  from th b obtain start stop where
    pg: "py_get (blocks (session_task (1 / 8) (1 / 9))) 1 = Inr (start, stop)"
    and it: "iterate example_rng (session_task (1 / 8) (1 / 9)
       \<lparr>index_start := Some 0, index_stop := Some 2, index := Some 0\<rparr>) 12 =
     Inr (map (\<lambda>k. [trial_A (1 / 8), half_trial\<lparr>rnd := 1 / 9\<rparr>] ! k) [nat start ..< nat stop],
       session_task (1 / 8) (1 / 9), 12)"
    by blast
  from pg have "start = 1" "stop = 2"
    by (simp_all add: py_get_def py_index_def session_task_def)
  with it have "iterate example_rng (session_task (1 / 8) (1 / 9)
       \<lparr>index_start := Some 0, index_stop := Some 2, index := Some 0\<rparr>) 12 =
     Inr ([half_trial\<lparr>rnd := 1 / 9\<rparr>], session_task (1 / 8) (1 / 9), 12)"
    by (simp add: upt_rec)
  with s a again b show ?thesis by simp
qed

text \<open>
  The claim as stated fails on the example session: the task is constructed, iterated
  fully and iterated again; the second pass returns trials with other random values.
\<close>

theorem iterate_again_counterexample:
  "init example_rng example_config 0 = Inr (session_task (1 / 2) (1 / 3), 6) \<and>
   iterate example_rng (session_task (1 / 2) (1 / 3)) 6 =
     Inr ([trial_A (1 / 8), half_trial\<lparr>rnd := 1 / 9\<rparr>], session_task (1 / 8) (1 / 9), 12) \<and>
   iterate example_rng (session_task (1 / 8) (1 / 9)) 12 =
     Inr ([trial_A (1 / 14), half_trial\<lparr>rnd := 1 / 15\<rparr>],
          session_task (1 / 14) (1 / 15), 18) \<and>
   [trial_A (1 / 8), half_trial\<lparr>rnd := 1 / 9\<rparr>] \<noteq>
     [trial_A (1 / 14), half_trial\<lparr>rnd := 1 / 15\<rparr>]"
  using init_example [of 0] iterate_example [of "1 / 2" "1 / 3" 6]
    iterate_example [of "1 / 8" "1 / 9" 12]
  by (simp add: trial_A_def)

end
